theory Spec2Isabelle
  imports Complex_Main
begin

section \<open>Force-directed graph layout: data model\<close>

text \<open>
  The embedding follows \<^verbatim>\<open>src/components/graph/graph-core.ts\<close> (types, constants,
  \<^verbatim>\<open>createInitialNodes\<close>, \<^verbatim>\<open>createNodeMap\<close>, \<^verbatim>\<open>resolveLinks\<close>) and the simulation layer of
  \<^verbatim>\<open>src/components/graph/graph-view.tsx\<close> (\<^verbatim>\<open>useGraphSimulation\<close>: the pre-resolved index
  pairs, \<^verbatim>\<open>tick\<close>, \<^verbatim>\<open>handlePointerMove\<close>).

  The arithmetic is embedded twice.  In \<open>repel\<close>, \<open>spring\<close>, \<open>center\<close>, \<open>tick\<close> and
  \<open>createInitialNodes\<close> JavaScript numbers are the reals and every operation is exact.  In
  \<open>repelD\<close>, \<open>springD\<close>, \<open>centerD\<close>, \<open>tickD\<close> and \<open>createInitialNodesD\<close> every operation is
  rounded to a double, as the code computes it; the speed bound, the decay after release
  and the initial layout are proved there, since rounding decides them.  An id is
  \<^verbatim>\<open>string | number\<close>; numeric ids are modelled as integers, for which \<^verbatim>\<open>String(id)\<close> is the
  decimal numeral.
\<close>

datatype GraphId = StrId string | NumId int

fun showNat :: "nat \<Rightarrow> string" where
  "showNat n =
     (if n < 10 then [''0123456789'' ! n]
      else showNat (n div 10) @ [''0123456789'' ! (n mod 10)])"

declare showNat.simps [simp del]

text \<open>\<^verbatim>\<open>String(id)\<close>: a string is itself, an integer is its decimal numeral.\<close>

fun String :: "GraphId \<Rightarrow> string" where
  "String (StrId s) = s"
| "String (NumId n) = (if n < 0 then CHR ''-'' # showNat (nat (- n)) else showNat (nat n))"

text \<open>
  JavaScript truthiness of an id, as tested by \<^verbatim>\<open>!draggedIdRef.current\<close>: the empty string
  and the number 0 are falsy.
\<close>

fun truthy :: "GraphId \<Rightarrow> bool" where
  "truthy (StrId s) = (s \<noteq> [])"
| "truthy (NumId n) = (n \<noteq> 0)"

text \<open>
  \<^verbatim>\<open>GraphNode\<close>, \<^verbatim>\<open>GraphLink\<close>, \<^verbatim>\<open>GraphResponse\<close>, \<^verbatim>\<open>SimNode\<close> and \<^verbatim>\<open>ResolvedLink\<close>.  The
  property map is opaque to the layout code, so its type is a parameter.  Field \<^verbatim>\<open>id\<close> is
  \<open>node_id\<close> / \<open>link_id\<close>; \<^verbatim>\<open>type\<close> is \<open>link_type\<close>.
\<close>

record 'p GraphNode =
  node_id :: GraphId
  label :: "string option"
  properties :: "'p option"

record 'p GraphLink =
  link_id :: GraphId
  source :: GraphId
  target :: GraphId
  link_type :: "string option"
  link_properties :: "'p option"

record 'p GraphResponse =
  nodes :: "'p GraphNode list"
  links :: "'p GraphLink list"

record 'p SimNode = "'p GraphNode" +
  x :: real
  y :: real
  vx :: real
  vy :: real

record 'p ResolvedLink =
  link :: "'p GraphLink"
  source_node :: "'p SimNode"
  target_node :: "'p SimNode"

subsection \<open>Layout and simulation constants\<close>

definition WIDTH :: real where "WIDTH = 960"
definition HEIGHT :: real where "HEIGHT = 540"
definition REPEL_STRENGTH :: real where "REPEL_STRENGTH = 1500"
definition LINK_DISTANCE :: real where "LINK_DISTANCE = 220"
definition SPRING_STRENGTH :: real where "SPRING_STRENGTH = 0.02"
definition CENTER_STRENGTH :: real where "CENTER_STRENGTH = 0.005"
definition DAMPING :: real where "DAMPING = 0.92"
definition DT :: real where "DT = 0.016"
definition MAX_VELOCITY :: real where "MAX_VELOCITY = 35"
definition BOUNDS_MARGIN :: real where "BOUNDS_MARGIN = 4"

section \<open>Layout initializer\<close>

text \<open>
  \<^verbatim>\<open>createInitialNodes\<close>.  The successive results of \<^verbatim>\<open>Math.random()\<close> are the parameter
  \<open>rnd\<close>: the callback of node \<open>index\<close> makes calls number \<open>2 * index\<close> (for \<^verbatim>\<open>jitterX\<close>) and
  \<open>2 * index + 1\<close> (for \<^verbatim>\<open>jitterY\<close>).  Each result lies in \<open>[0, 1)\<close>.  The local constants
  of the function are definitions of their own, so that theorems can name them.
\<close>

definition marginX :: real where "marginX = 16"
definition marginY :: real where "marginY = 16"
definition usableWidth :: real where "usableWidth = WIDTH - marginX * 2"
definition usableHeight :: real where "usableHeight = HEIGHT - marginY * 2"
definition aspect :: real where "aspect = usableWidth / usableHeight"

text \<open>The grid for \<open>count\<close> nodes: \<^verbatim>\<open>cols\<close>, \<^verbatim>\<open>rows\<close>, \<^verbatim>\<open>cellWidth\<close>, \<^verbatim>\<open>cellHeight\<close>.\<close>

definition cols :: "nat \<Rightarrow> nat" where
  "cols count = max 1 (nat \<lceil>sqrt (real count * aspect)\<rceil>)"

definition rows :: "nat \<Rightarrow> nat" where
  "rows count = max 1 (nat \<lceil>real count / real (cols count)\<rceil>)"

definition cellWidth :: "nat \<Rightarrow> real" where
  "cellWidth count = (if cols count > 1 then usableWidth / real (cols count - 1) else 0)"

definition cellHeight :: "nat \<Rightarrow> real" where
  "cellHeight count = (if rows count > 1 then usableHeight / real (rows count - 1) else 0)"

definition createInitialNodes :: "(nat \<Rightarrow> real) \<Rightarrow> 'p GraphResponse \<Rightarrow> 'p SimNode list" where
  "createInitialNodes rnd data =
     (if nodes data = [] then []
      else
        let count = length (nodes data)
        in map (\<lambda>(index, node).
                  let col = index mod cols count;
                      row = index div cols count;
                      baseX = marginX + real col * cellWidth count;
                      baseY = marginY + real row * cellHeight count;
                      jitterX = cellWidth count * 0.2 * (rnd (2 * index) - 0.5);
                      jitterY = cellHeight count * 0.2 * (rnd (2 * index + 1) - 0.5)
                  in \<lparr>node_id = node_id node, label = label node,
                      properties = properties node,
                      x = baseX + jitterX, y = baseY + jitterY, vx = 0, vy = 0\<rparr>)
               (enumerate 0 (nodes data)))"

section \<open>Node map and link resolution\<close>

text \<open>
  \<^verbatim>\<open>new Map(entries)\<close> sets the entries in order, so a later entry with the same key
  replaces an earlier one.
\<close>

definition newMap :: "('k \<times> 'v) list \<Rightarrow> ('k \<rightharpoonup> 'v)" where
  "newMap entries = fold (\<lambda>(k, v) m. m(k \<mapsto> v)) entries Map.empty"

definition createNodeMap :: "'p SimNode list \<Rightarrow> (string \<rightharpoonup> 'p SimNode)" where
  "createNodeMap ns = newMap (map (\<lambda>n. (String (node_id n), n)) ns)"

text \<open>\<^verbatim>\<open>resolveLinks\<close>; the argument \<open>None\<close> is \<^verbatim>\<open>data === null\<close>.\<close>

definition resolveLinks ::
  "'p GraphResponse option \<Rightarrow> (string \<rightharpoonup> 'p SimNode) \<Rightarrow> 'p ResolvedLink list" where
  "resolveLinks data nodeMap =
     (case data of
        None \<Rightarrow> []
      | Some dat \<Rightarrow>
          map the (filter (\<lambda>v. v \<noteq> None)
            (map (\<lambda>l.
                    case nodeMap (String (source l)) of
                      None \<Rightarrow> None
                    | Some s \<Rightarrow>
                        (case nodeMap (String (target l)) of
                           None \<Rightarrow> None
                         | Some t \<Rightarrow> Some \<lparr>link = l, source_node = s, target_node = t\<rparr>))
                 (links dat))))"

section \<open>Force simulation engine\<close>

text \<open>
  The effect of \<^verbatim>\<open>useGraphSimulation\<close> first maps string-coerced node ids to indices and
  pre-resolves the links into index pairs, dropping a link with a missing endpoint or with
  equal endpoint indices.
\<close>

definition indexById :: "'p GraphNode list \<Rightarrow> (string \<rightharpoonup> nat)" where
  "indexById ns = newMap (map (\<lambda>(index, node). (String (node_id node), index)) (enumerate 0 ns))"

definition simLinks :: "'p GraphResponse \<Rightarrow> (nat \<times> nat) list" where
  "simLinks data =
     map the (filter (\<lambda>v. v \<noteq> None)
       (map (\<lambda>l.
               case indexById (nodes data) (String (source l)) of
                 None \<Rightarrow> None
               | Some sourceIndex \<Rightarrow>
                   (case indexById (nodes data) (String (target l)) of
                      None \<Rightarrow> None
                    | Some targetIndex \<Rightarrow>
                        if sourceIndex = targetIndex then None
                        else Some (sourceIndex, targetIndex)))
            (links data)))"

text \<open>
  Phase 1, the body of the inner loop for the pair \<open>(i, j)\<close> with \<open>i < j\<close>: the two array
  cells are distinct objects (it is only called with \<open>i < j\<close>), updated in place.  \<open>draggingId\<close> is \<open>None\<close> for \<^verbatim>\<open>null\<close>; the
  test \<^verbatim>\<open>node.id !== draggingId\<close> is strict (in)equality.
\<close>

definition repel :: "GraphId option \<Rightarrow> nat \<Rightarrow> nat \<Rightarrow> 'p SimNode list \<Rightarrow> 'p SimNode list" where
  "repel draggingId i j updated =
     (let nodeA = updated ! i;
          nodeB = updated ! j;
          dx = x nodeB - x nodeA;
          dy = y nodeB - y nodeA;
          distSq = dx * dx + dy * dy + 0.01;
          force = REPEL_STRENGTH / distSq;
          dist = sqrt distSq;
          invDist = 1 / dist;
          dx = dx * invDist;
          dy = dy * invDist;
          fx = force * dx;
          fy = force * dy;
          nodeA' = (if Some (node_id nodeA) \<noteq> draggingId
                    then nodeA\<lparr>vx := vx nodeA - fx * DT, vy := vy nodeA - fy * DT\<rparr>
                    else nodeA);
          nodeB' = (if Some (node_id nodeB) \<noteq> draggingId
                    then nodeB\<lparr>vx := vx nodeB + fx * DT, vy := vy nodeB + fy * DT\<rparr>
                    else nodeB)
      in updated[i := nodeA', j := nodeB'])"

text \<open>The two nested \<^verbatim>\<open>for\<close> statements; the array length does not change.\<close>

definition repelAll :: "GraphId option \<Rightarrow> 'p SimNode list \<Rightarrow> 'p SimNode list" where
  "repelAll draggingId updated =
     fold (\<lambda>i. fold (\<lambda>j. repel draggingId i j) [i + 1 ..< length updated])
          [0 ..< length updated] updated"

text \<open>
  Phase 2, the loop body for one index pair.  \<^verbatim>\<open>Math.sqrt(...) || 1\<close> replaces a zero
  distance by 1.  The source is written before the target is read, but only the
  velocity changes, and the force was computed before.
\<close>

definition spring :: "GraphId option \<Rightarrow> nat \<Rightarrow> nat \<Rightarrow> 'p SimNode list \<Rightarrow> 'p SimNode list" where
  "spring draggingId sourceIndex targetIndex updated =
     (let src = updated ! sourceIndex;
          tgt = updated ! targetIndex;
          dx = x tgt - x src;
          dy = y tgt - y src;
          dist = (if sqrt (dx * dx + dy * dy) = 0 then 1 else sqrt (dx * dx + dy * dy));
          displacement = dist - LINK_DISTANCE;
          force = SPRING_STRENGTH * displacement;
          invDist = 1 / dist;
          dx = dx * invDist;
          dy = dy * invDist;
          fx = force * dx;
          fy = force * dy;
          updated1 = (if Some (node_id src) \<noteq> draggingId
                      then updated[sourceIndex := src\<lparr>vx := vx src + fx * DT, vy := vy src + fy * DT\<rparr>]
                      else updated);
          tgt1 = updated1 ! targetIndex
      in if Some (node_id tgt1) \<noteq> draggingId
         then updated1[targetIndex := tgt1\<lparr>vx := vx tgt1 - fx * DT, vy := vy tgt1 - fy * DT\<rparr>]
         else updated1)"

text \<open>
  The loop over the index pairs.  Reading a field of \<^verbatim>\<open>updated[k]\<close> for an index outside
  the array throws a TypeError: the result \<open>None\<close>.
\<close>

fun springAll ::
  "GraphId option \<Rightarrow> (nat \<times> nat) list \<Rightarrow> 'p SimNode list \<Rightarrow> 'p SimNode list option" where
  "springAll draggingId [] updated = Some updated"
| "springAll draggingId ((sourceIndex, targetIndex) # rest) updated =
     (if sourceIndex < length updated \<and> targetIndex < length updated
      then springAll draggingId rest (spring draggingId sourceIndex targetIndex updated)
      else None)"

text \<open>Phase 3, the loop body for one node.\<close>

definition center :: "GraphId option \<Rightarrow> 'p SimNode \<Rightarrow> 'p SimNode" where
  "center draggingId node =
     (if Some (node_id node) = draggingId
      then node\<lparr>vx := vx node * DAMPING, vy := vy node * DAMPING\<rparr>
      else
        let centerX = WIDTH / 2;
            centerY = HEIGHT / 2;
            dx = centerX - x node;
            dy = centerY - y node;
            vx1 = (vx node + dx * CENTER_STRENGTH * DT) * DAMPING;
            vy1 = (vy node + dy * CENTER_STRENGTH * DT) * DAMPING;
            speedSq = vx1 * vx1 + vy1 * vy1;
            speed = sqrt speedSq;
            scale = MAX_VELOCITY / speed;
            vx2 = (if speedSq > MAX_VELOCITY * MAX_VELOCITY then vx1 * scale else vx1);
            vy2 = (if speedSq > MAX_VELOCITY * MAX_VELOCITY then vy1 * scale else vy1)
        in node\<lparr>vx := vx2, vy := vy2,
                x := max BOUNDS_MARGIN (min (WIDTH - BOUNDS_MARGIN) (x node + vx2)),
                y := max BOUNDS_MARGIN (min (HEIGHT - BOUNDS_MARGIN) (y node + vy2))\<rparr>)"

text \<open>
  \<^verbatim>\<open>tick\<close>: the next value of \<^verbatim>\<open>nodesRef.current\<close>, given the index pairs, the value of
  \<^verbatim>\<open>draggedIdRef.current\<close> and the current array.  With an empty array the tick returns at
  once and leaves the array as it is.
\<close>

definition tick ::
  "(nat \<times> nat) list \<Rightarrow> GraphId option \<Rightarrow> 'p SimNode list \<Rightarrow> 'p SimNode list option" where
  "tick lnks draggingId current =
     (if current = [] then Some current
      else
        case springAll draggingId lnks (repelAll draggingId current) of
          None \<Rightarrow> None
        | Some updated \<Rightarrow> Some (map (center draggingId) updated))"

text \<open>A run of \<open>k\<close> ticks with the same index pairs and the same dragged id.\<close>

fun ticks ::
  "nat \<Rightarrow> (nat \<times> nat) list \<Rightarrow> GraphId option \<Rightarrow> 'p SimNode list \<Rightarrow> 'p SimNode list option" where
  "ticks 0 lnks draggingId current = Some current"
| "ticks (Suc k) lnks draggingId current =
     (case tick lnks draggingId current of
        None \<Rightarrow> None
      | Some updated \<Rightarrow> ticks k lnks draggingId updated)"

text \<open>
  \<^verbatim>\<open>handlePointerMove\<close>, with the pointer position already converted to canvas
  coordinates \<open>(px, py)\<close>.  A missing or falsy dragged id and an empty array leave the array as
  it is.
\<close>

definition handlePointerMove ::
  "GraphId option \<Rightarrow> real \<times> real \<Rightarrow> 'p SimNode list \<Rightarrow> 'p SimNode list" where
  "handlePointerMove draggedId p current =
     (case draggedId of
        None \<Rightarrow> current
      | Some g \<Rightarrow>
          if \<not> truthy g then current
          else if current = [] then current
          else map (\<lambda>node. if node_id node = g
                            then node\<lparr>x := fst p, y := snd p, vx := 0, vy := 0\<rparr>
                            else node) current)"

text \<open>Every index of every pair is inside an array of length \<open>n\<close>.\<close>

definition linksInRange :: "(nat \<times> nat) list \<Rightarrow> nat \<Rightarrow> bool" where
  "linksInRange lnks n = list_all (\<lambda>(s, t). s < n \<and> t < n) lnks"

section \<open>Double arithmetic\<close>

text \<open>
  A JavaScript number is an IEEE 754 double: 53 significant bits, every arithmetic result
  rounded to the nearest double, ties to even.  \<open>double\<close> is that rounding on the reals.  The
  exponent range is not modelled, so overflow, subnormal numbers, infinities and NaN are
  outside the model; the positions and velocities of the simulation are far from them.
\<close>

text \<open>The integer nearest to \<open>q\<close>, a tie going to the even one.\<close>

definition roundEven :: "real \<Rightarrow> int" where
  "roundEven q =
     (let f = \<lfloor>q\<rfloor>; r = q - of_int f
      in if r < 1 / 2 then f else if 1 / 2 < r then f + 1 else if even f then f else f + 1)"

text \<open>
  The double nearest to \<open>v\<close>: \<open>v\<close> is scaled so that its integer part has 53 bits, rounded to
  an integer and scaled back.
\<close>

definition double :: "real \<Rightarrow> real" where
  "double v =
     (if v = 0 then 0
      else let e = \<lfloor>log 2 \<bar>v\<bar>\<rfloor>
           in of_int (roundEven (v / 2 powr (of_int e - 52))) * 2 powr (of_int e - 52))"

text \<open>
  The functions of the tick once more, now with the result of every subtraction, addition,
  multiplication, division and square root rounded, in the order in which the source
  evaluates them.  A decimal constant is the double nearest to it (\<open>double DT\<close>,
  \<open>double DAMPING\<close>, \<open>double 0.01\<close>); the integer constants and \<open>WIDTH / 2\<close>,
  \<open>WIDTH - BOUNDS_MARGIN\<close>, \<open>MAX_VELOCITY * MAX_VELOCITY\<close> are doubles already.
\<close>

definition repelD :: "GraphId option \<Rightarrow> nat \<Rightarrow> nat \<Rightarrow> 'p SimNode list \<Rightarrow> 'p SimNode list" where
  "repelD draggingId i j updated =
     (let nodeA = updated ! i;
          nodeB = updated ! j;
          dx = double (x nodeB - x nodeA);
          dy = double (y nodeB - y nodeA);
          distSq = double (double (double (dx * dx) + double (dy * dy)) + double 0.01);
          force = double (REPEL_STRENGTH / distSq);
          dist = double (sqrt distSq);
          invDist = double (1 / dist);
          dx = double (dx * invDist);
          dy = double (dy * invDist);
          fx = double (force * dx);
          fy = double (force * dy);
          nodeA' = (if Some (node_id nodeA) \<noteq> draggingId
                    then nodeA\<lparr>vx := double (vx nodeA - double (fx * double DT)),
                               vy := double (vy nodeA - double (fy * double DT))\<rparr>
                    else nodeA);
          nodeB' = (if Some (node_id nodeB) \<noteq> draggingId
                    then nodeB\<lparr>vx := double (vx nodeB + double (fx * double DT)),
                               vy := double (vy nodeB + double (fy * double DT))\<rparr>
                    else nodeB)
      in updated[i := nodeA', j := nodeB'])"

definition repelAllD :: "GraphId option \<Rightarrow> 'p SimNode list \<Rightarrow> 'p SimNode list" where
  "repelAllD draggingId updated =
     fold (\<lambda>i. fold (\<lambda>j. repelD draggingId i j) [i + 1 ..< length updated])
          [0 ..< length updated] updated"

definition springD :: "GraphId option \<Rightarrow> nat \<Rightarrow> nat \<Rightarrow> 'p SimNode list \<Rightarrow> 'p SimNode list" where
  "springD draggingId sourceIndex targetIndex updated =
     (let src = updated ! sourceIndex;
          tgt = updated ! targetIndex;
          dx = double (x tgt - x src);
          dy = double (y tgt - y src);
          root = double (sqrt (double (double (dx * dx) + double (dy * dy))));
          dist = (if root = 0 then 1 else root);
          displacement = double (dist - LINK_DISTANCE);
          force = double (double SPRING_STRENGTH * displacement);
          invDist = double (1 / dist);
          dx = double (dx * invDist);
          dy = double (dy * invDist);
          fx = double (force * dx);
          fy = double (force * dy);
          updated1 = (if Some (node_id src) \<noteq> draggingId
                      then updated[sourceIndex :=
                             src\<lparr>vx := double (vx src + double (fx * double DT)),
                                 vy := double (vy src + double (fy * double DT))\<rparr>]
                      else updated);
          tgt1 = updated1 ! targetIndex
      in if Some (node_id tgt1) \<noteq> draggingId
         then updated1[targetIndex :=
                tgt1\<lparr>vx := double (vx tgt1 - double (fx * double DT)),
                     vy := double (vy tgt1 - double (fy * double DT))\<rparr>]
         else updated1)"

fun springAllD ::
  "GraphId option \<Rightarrow> (nat \<times> nat) list \<Rightarrow> 'p SimNode list \<Rightarrow> 'p SimNode list option" where
  "springAllD draggingId [] updated = Some updated"
| "springAllD draggingId ((sourceIndex, targetIndex) # rest) updated =
     (if sourceIndex < length updated \<and> targetIndex < length updated
      then springAllD draggingId rest (springD draggingId sourceIndex targetIndex updated)
      else None)"

definition centerD :: "GraphId option \<Rightarrow> 'p SimNode \<Rightarrow> 'p SimNode" where
  "centerD draggingId node =
     (if Some (node_id node) = draggingId
      then node\<lparr>vx := double (vx node * double DAMPING),
                vy := double (vy node * double DAMPING)\<rparr>
      else
        let centerX = WIDTH / 2;
            centerY = HEIGHT / 2;
            dx = double (centerX - x node);
            dy = double (centerY - y node);
            vx1 = double (double (vx node
                                  + double (double (dx * double CENTER_STRENGTH) * double DT))
                          * double DAMPING);
            vy1 = double (double (vy node
                                  + double (double (dy * double CENTER_STRENGTH) * double DT))
                          * double DAMPING);
            speedSq = double (double (vx1 * vx1) + double (vy1 * vy1));
            speed = double (sqrt speedSq);
            scale = double (MAX_VELOCITY / speed);
            vx2 = (if speedSq > MAX_VELOCITY * MAX_VELOCITY then double (vx1 * scale) else vx1);
            vy2 = (if speedSq > MAX_VELOCITY * MAX_VELOCITY then double (vy1 * scale) else vy1)
        in node\<lparr>vx := vx2, vy := vy2,
                x := max BOUNDS_MARGIN (min (WIDTH - BOUNDS_MARGIN) (double (x node + vx2))),
                y := max BOUNDS_MARGIN (min (HEIGHT - BOUNDS_MARGIN) (double (y node + vy2)))\<rparr>)"

definition tickD ::
  "(nat \<times> nat) list \<Rightarrow> GraphId option \<Rightarrow> 'p SimNode list \<Rightarrow> 'p SimNode list option" where
  "tickD lnks draggingId current =
     (if current = [] then Some current
      else
        case springAllD draggingId lnks (repelAllD draggingId current) of
          None \<Rightarrow> None
        | Some updated \<Rightarrow> Some (map (centerD draggingId) updated))"

fun ticksD ::
  "nat \<Rightarrow> (nat \<times> nat) list \<Rightarrow> GraphId option \<Rightarrow> 'p SimNode list \<Rightarrow> 'p SimNode list option" where
  "ticksD 0 lnks draggingId current = Some current"
| "ticksD (Suc k) lnks draggingId current =
     (case tickD lnks draggingId current of
        None \<Rightarrow> None
      | Some updated \<Rightarrow> ticksD k lnks draggingId updated)"

subsection \<open>The layout initializer in doubles\<close>

text \<open>
  \<^verbatim>\<open>createInitialNodes\<close> with every quotient, product, sum, difference and square root
  rounded.  The node count, the column and row numbers and \<open>cols - 1\<close>, \<open>rows - 1\<close> are integers
  below \<open>2\<^sup>5\<^sup>3\<close> and so doubles already, as are \<open>marginX\<close>, \<open>usableWidth\<close>, \<open>usableHeight\<close> and
  \<open>0.5\<close>; \<^verbatim>\<open>index % cols\<close> is exact, and \<^verbatim>\<open>Math.floor(index / cols)\<close> is the floor of the
  rounded quotient.
\<close>

definition aspectD :: real where "aspectD = double (usableWidth / usableHeight)"

definition colsD :: "nat \<Rightarrow> nat" where
  "colsD count = max 1 (nat \<lceil>double (sqrt (double (real count * aspectD)))\<rceil>)"

definition rowsD :: "nat \<Rightarrow> nat" where
  "rowsD count = max 1 (nat \<lceil>double (real count / real (colsD count))\<rceil>)"

definition cellWidthD :: "nat \<Rightarrow> real" where
  "cellWidthD count =
     (if colsD count > 1 then double (usableWidth / real (colsD count - 1)) else 0)"

definition cellHeightD :: "nat \<Rightarrow> real" where
  "cellHeightD count =
     (if rowsD count > 1 then double (usableHeight / real (rowsD count - 1)) else 0)"

definition createInitialNodesD :: "(nat \<Rightarrow> real) \<Rightarrow> 'p GraphResponse \<Rightarrow> 'p SimNode list" where
  "createInitialNodesD rnd data =
     (if nodes data = [] then []
      else
        let count = length (nodes data)
        in map (\<lambda>(index, node).
                  let col = index mod colsD count;
                      row = nat \<lfloor>double (real index / real (colsD count))\<rfloor>;
                      baseX = double (marginX + double (real col * cellWidthD count));
                      baseY = double (marginY + double (real row * cellHeightD count));
                      jitterX = double (double (cellWidthD count * double 0.2)
                                        * double (rnd (2 * index) - 0.5));
                      jitterY = double (double (cellHeightD count * double 0.2)
                                        * double (rnd (2 * index + 1) - 0.5))
                  in \<lparr>node_id = node_id node, label = label node,
                      properties = properties node,
                      x = double (baseX + jitterX), y = double (baseY + jitterY),
                      vx = 0, vy = 0\<rparr>)
               (enumerate 0 (nodes data)))"

section \<open>The tick as the specification words it\<close>

text \<open>
  These definitions do not come from the source: they follow the wording of the
  specification's per-tick algorithm, to be compared with \<open>tick\<close>.  Forces are computed
  from the previous tick's node array \<open>prev\<close> and applied as velocity impulses.
\<close>

text \<open>An impulse on node \<open>i\<close>, skipped when the node is the pinned one.\<close>

definition applyImpulse ::
  "GraphId option \<Rightarrow> nat \<Rightarrow> real \<times> real \<Rightarrow> 'p SimNode list \<Rightarrow> 'p SimNode list" where
  "applyImpulse pinned i v acc =
     (if Some (node_id (acc ! i)) = pinned then acc
      else acc[i := (acc ! i)\<lparr>vx := vx (acc ! i) + fst v, vy := vy (acc ! i) + snd v\<rparr>])"

text \<open>The unordered pairs of indices below \<open>n\<close>.\<close>

definition unorderedPairs :: "nat \<Rightarrow> (nat \<times> nat) list" where
  "unorderedPairs n = concat (map (\<lambda>i. map (Pair i) [i + 1 ..< n]) [0 ..< n])"

text \<open>
  Repulsion as claimed: magnitude \<open>REPEL_STRENGTH / (|d|\<^sup>2 + 0.01)\<close> along the unit vector
  \<open>d / |d|\<close> of the pair, scaled by \<open>DT\<close>; the impulse on the second node of the pair.
\<close>

definition claimedRepulsion :: "'p SimNode \<Rightarrow> 'p SimNode \<Rightarrow> real \<times> real" where
  "claimedRepulsion a b =
     (let dx = x b - x a;
          dy = y b - y a;
          norm = sqrt (dx\<^sup>2 + dy\<^sup>2);
          magnitude = REPEL_STRENGTH / (dx\<^sup>2 + dy\<^sup>2 + 0.01)
      in (magnitude * (dx / norm) * DT, magnitude * (dy / norm) * DT))"

text \<open>
  Repulsion with the softened direction: the pair vector is divided by
  \<open>sqrt (|d|\<^sup>2 + 0.01)\<close> instead of \<open>|d|\<close>.
\<close>

definition softenedRepulsion :: "'p SimNode \<Rightarrow> 'p SimNode \<Rightarrow> real \<times> real" where
  "softenedRepulsion a b =
     (let dx = x b - x a;
          dy = y b - y a;
          soft = sqrt (dx\<^sup>2 + dy\<^sup>2 + 0.01);
          magnitude = REPEL_STRENGTH / (dx\<^sup>2 + dy\<^sup>2 + 0.01)
      in (magnitude * (dx / soft) * DT, magnitude * (dy / soft) * DT))"

text \<open>
  The spring impulse on the source of a link: \<open>SPRING_STRENGTH * (dist - LINK_DISTANCE)\<close>
  along the unit link vector, with \<open>dist\<close> guarded to 1 when zero, scaled by \<open>DT\<close>.
\<close>

definition springImpulse :: "'p SimNode \<Rightarrow> 'p SimNode \<Rightarrow> real \<times> real" where
  "springImpulse s t =
     (let dx = x t - x s;
          dy = y t - y s;
          dist = (if sqrt (dx\<^sup>2 + dy\<^sup>2) = 0 then 1 else sqrt (dx\<^sup>2 + dy\<^sup>2));
          magnitude = SPRING_STRENGTH * (dist - LINK_DISTANCE)
      in (magnitude * (dx / dist) * DT, magnitude * (dy / dist) * DT))"

definition opposite :: "real \<times> real \<Rightarrow> real \<times> real" where
  "opposite v = (- fst v, - snd v)"

text \<open>The five steps of phase 3, each on one node.\<close>

definition centering :: "'p SimNode \<Rightarrow> 'p SimNode" where
  "centering n = n\<lparr>vx := vx n + CENTER_STRENGTH * DT * (WIDTH / 2 - x n),
                  vy := vy n + CENTER_STRENGTH * DT * (HEIGHT / 2 - y n)\<rparr>"

definition damping :: "'p SimNode \<Rightarrow> 'p SimNode" where
  "damping n = n\<lparr>vx := vx n * DAMPING, vy := vy n * DAMPING\<rparr>"

definition clampSpeed :: "'p SimNode \<Rightarrow> 'p SimNode" where
  "clampSpeed n =
     (if sqrt ((vx n)\<^sup>2 + (vy n)\<^sup>2) > MAX_VELOCITY
      then n\<lparr>vx := vx n * (MAX_VELOCITY / sqrt ((vx n)\<^sup>2 + (vy n)\<^sup>2)),
             vy := vy n * (MAX_VELOCITY / sqrt ((vx n)\<^sup>2 + (vy n)\<^sup>2))\<rparr>
      else n)"

definition integrate :: "'p SimNode \<Rightarrow> 'p SimNode" where
  "integrate n = n\<lparr>x := x n + vx n, y := y n + vy n\<rparr>"

definition clampPosition :: "'p SimNode \<Rightarrow> 'p SimNode" where
  "clampPosition n =
     n\<lparr>x := max BOUNDS_MARGIN (min (WIDTH - BOUNDS_MARGIN) (x n)),
       y := max BOUNDS_MARGIN (min (HEIGHT - BOUNDS_MARGIN) (y n))\<rparr>"

text \<open>
  The three phases in order, with the repulsion impulse and the treatment of the pinned node
  in phase 3 as parameters.
\<close>

definition phasesInOrder ::
  "('p SimNode \<Rightarrow> 'p SimNode \<Rightarrow> real \<times> real) \<Rightarrow> ('p SimNode \<Rightarrow> 'p SimNode) \<Rightarrow>
   (nat \<times> nat) list \<Rightarrow> GraphId option \<Rightarrow> 'p SimNode list \<Rightarrow> 'p SimNode list" where
  "phasesInOrder repulsion pinnedStep lnks pinned prev =
     (let phase1 = fold (\<lambda>(i, j) acc.
                        applyImpulse pinned j (repulsion (prev ! i) (prev ! j))
                          (applyImpulse pinned i (opposite (repulsion (prev ! i) (prev ! j))) acc))
                     (unorderedPairs (length prev)) prev;
          phase2 = fold (\<lambda>(s, t) acc.
                        applyImpulse pinned t (opposite (springImpulse (prev ! s) (prev ! t)))
                          (applyImpulse pinned s (springImpulse (prev ! s) (prev ! t)) acc))
                     lnks phase1
      in map (\<lambda>n. if Some (node_id n) = pinned then pinnedStep n
                   else clampPosition (integrate (clampSpeed (damping (centering n)))))
             phase2)"

text \<open>The tick as claimed: unit pair vector, and phase 3 for non-pinned nodes only.\<close>

definition claimedTick ::
  "(nat \<times> nat) list \<Rightarrow> GraphId option \<Rightarrow> 'p SimNode list \<Rightarrow> 'p SimNode list" where
  "claimedTick = phasesInOrder claimedRepulsion (\<lambda>n. n)"

text \<open>The tick as amended: softened direction, and damping for the pinned node in phase 3.\<close>

definition amendedTick ::
  "(nat \<times> nat) list \<Rightarrow> GraphId option \<Rightarrow> 'p SimNode list \<Rightarrow> 'p SimNode list" where
  "amendedTick = phasesInOrder softenedRepulsion damping"

section \<open>Basic facts about the embedding\<close>

lemmas sim_consts =
  WIDTH_def HEIGHT_def REPEL_STRENGTH_def LINK_DISTANCE_def SPRING_STRENGTH_def
  CENTER_STRENGTH_def DAMPING_def DT_def MAX_VELOCITY_def BOUNDS_MARGIN_def

lemma newMap_map_of: "newMap es = map_of (rev es)"
proof -
  have "fold (\<lambda>(k, v) m. m(k \<mapsto> v)) es m0 = m0 ++ map_of (rev es)" for m0 :: "'a \<rightharpoonup> 'b"
    by (induction es arbitrary: m0) (auto simp: map_add_upd_left)
  then show ?thesis by (simp add: newMap_def)
qed

lemma dom_newMap: "dom (newMap es) = fst ` set es"
  by (simp add: newMap_map_of dom_map_of_conv_image_fst)

lemma dom_createNodeMap: "dom (createNodeMap ns) = (\<lambda>n. String (node_id n)) ` set ns"
  by (simp add: createNodeMap_def dom_newMap image_image)

lemma createNodeMap_Some:
  "createNodeMap ns k = Some n \<Longrightarrow> n \<in> set ns \<and> String (node_id n) = k"
  by (auto simp: createNodeMap_def newMap_map_of dest!: map_of_SomeD)

lemma length_repel [simp]: "length (repel d i j ns) = length ns"
  by (simp add: repel_def Let_def)

lemma length_spring [simp]: "length (spring d s t ns) = length ns"
  by (simp add: spring_def Let_def)

lemma resolveLinks_filter:
  "resolveLinks (Some data) m =
     map (\<lambda>l. \<lparr>link = l, source_node = the (m (String (source l))),
                target_node = the (m (String (target l)))\<rparr>)
         (filter (\<lambda>l. String (source l) \<in> dom m \<and> String (target l) \<in> dom m) (links data))"
proof -
  have "map the (filter (\<lambda>v. v \<noteq> None)
            (map (\<lambda>l.
                    case m (String (source l)) of
                      None \<Rightarrow> None
                    | Some s \<Rightarrow>
                        (case m (String (target l)) of
                           None \<Rightarrow> None
                         | Some t \<Rightarrow> Some \<lparr>link = l, source_node = s, target_node = t\<rparr>))
                 ls)) =
     map (\<lambda>l. \<lparr>link = l, source_node = the (m (String (source l))),
                target_node = the (m (String (target l)))\<rparr>)
         (filter (\<lambda>l. String (source l) \<in> dom m \<and> String (target l) \<in> dom m) ls)" for ls
    by (induction ls) (auto split: option.splits)
  then show ?thesis by (simp add: resolveLinks_def)
qed

lemma simLinks_filter:
  "simLinks data =
     map (\<lambda>l. (the (indexById (nodes data) (String (source l))),
               the (indexById (nodes data) (String (target l)))))
       (filter (\<lambda>l. String (source l) \<in> dom (indexById (nodes data)) \<and>
                     String (target l) \<in> dom (indexById (nodes data)) \<and>
                     indexById (nodes data) (String (source l)) \<noteq>
                     indexById (nodes data) (String (target l)))
               (links data))"
proof -
  have "map the (filter (\<lambda>v. v \<noteq> None)
       (map (\<lambda>l.
               case ix (String (source l)) of
                 None \<Rightarrow> None
               | Some sourceIndex \<Rightarrow>
                   (case ix (String (target l)) of
                      None \<Rightarrow> None
                    | Some targetIndex \<Rightarrow>
                        if sourceIndex = targetIndex then None
                        else Some (sourceIndex, targetIndex)))
            ls)) =
     map (\<lambda>l. (the (ix (String (source l))), the (ix (String (target l)))))
       (filter (\<lambda>l. String (source l) \<in> dom ix \<and> String (target l) \<in> dom ix \<and>
                     ix (String (source l)) \<noteq> ix (String (target l))) ls)"
    for ls and ix :: "string \<rightharpoonup> nat"
    by (induction ls) (auto split: option.splits)
  then show ?thesis by (simp add: simLinks_def)
qed



lemma simLinks_distinct_ends: "(s, t) \<in> set (simLinks data) \<Longrightarrow> s \<noteq> t"
  by (auto simp: simLinks_filter dom_def)

section \<open>Rounding to a double\<close>

lemma roundEven_error: "\<bar>of_int (roundEven q) - q\<bar> \<le> 1 / 2"
  unfolding roundEven_def Let_def by (auto; linarith)

lemma double_error: "\<bar>double v - v\<bar> \<le> \<bar>v\<bar> / 2 ^ 53"
proof (cases "v = 0")
  case True
  then show ?thesis by (simp add: double_def)
next
  case False
  define e where "e = \<lfloor>log 2 \<bar>v\<bar>\<rfloor>"
  define p :: real where "p = 2 powr (of_int e - 52)"
  have p0: "0 < p" by (simp add: p_def)
  have "2 powr of_int e \<le> 2 powr (log 2 \<bar>v\<bar>)" unfolding e_def by (intro powr_mono) simp_all
  also have "\<dots> = \<bar>v\<bar>" using False by simp
  finally have lo: "2 powr of_int e \<le> \<bar>v\<bar>" .
  have pe: "2 powr of_int e = 2 ^ 52 * p"
    by (simp add: p_def powr_diff)
  have "double v - v = (of_int (roundEven (v / p)) - v / p) * p"
    using False p0 by (simp add: double_def e_def [symmetric] p_def [symmetric] Let_def field_simps)
  then have "\<bar>double v - v\<bar> = \<bar>of_int (roundEven (v / p)) - v / p\<bar> * p"
    using p0 by (simp add: abs_mult)
  also have "\<dots> \<le> 1 / 2 * p" using p0 roundEven_error [of "v / p"] by (intro mult_right_mono) simp_all
  also have "\<dots> = (2 ^ 52 * p) / 2 ^ 53" by simp
  also have "\<dots> \<le> \<bar>v\<bar> / 2 ^ 53" using lo pe by (simp add: divide_right_mono)
  finally show ?thesis .
qed

lemma double_eqI:
  assumes "p = 2 powr of_int k" "2 ^ 52 * p \<le> \<bar>v\<bar>" "\<bar>v\<bar> < 2 ^ 53 * p"
    and "roundEven (v / p) = m"
  shows "double v = of_int m * p"
proof -
  have p0: "0 < p" by (simp add: assms(1))
  have v0: "v \<noteq> 0" using assms(2) p0 by auto
  have "2 powr (of_int (k + 52)) = 2 ^ 52 * p" by (simp add: assms(1) powr_add)
  moreover have "2 powr (of_int (k + 52) + 1) = 2 ^ 53 * p" by (simp add: assms(1) powr_add)
  ultimately have "\<lfloor>log 2 \<bar>v\<bar>\<rfloor> = k + 52"
    using assms(2,3) v0 by (subst floor_log_eq_powr_iff) simp_all
  then show ?thesis using v0 assms(1,4) by (simp add: double_def Let_def)
qed

lemma roundEven_sqrtI:
  assumes "0 \<le> of_int m - (1 / 2 :: real)" "(of_int m - 1 / 2)\<^sup>2 < q" "q < (of_int m + 1 / 2)\<^sup>2"
  shows "roundEven (sqrt q) = m"
proof -
  have "of_int m - 1 / 2 < sqrt q" using assms(1,2) by (simp add: real_less_rsqrt)
  moreover have "sqrt q < of_int m + 1 / 2" using assms(1,3) by (intro real_less_lsqrt) simp_all
  ultimately have f: "\<lfloor>sqrt q\<rfloor> = m \<or> \<lfloor>sqrt q\<rfloor> = m - 1" by linarith
  show ?thesis
  proof (cases "\<lfloor>sqrt q\<rfloor> = m")
    case True
    with \<open>sqrt q < of_int m + 1 / 2\<close> show ?thesis by (simp add: roundEven_def Let_def)
  next
    case False
    with f have "\<lfloor>sqrt q\<rfloor> = m - 1" by simp
    with \<open>of_int m - 1 / 2 < sqrt q\<close> show ?thesis by (simp add: roundEven_def Let_def)
  qed
qed

lemma double_upper: "\<bar>double v\<bar> \<le> \<bar>v\<bar> * (1 + 1 / 2 ^ 53)"
proof -
  have "\<bar>double v\<bar> \<le> \<bar>v\<bar> + \<bar>double v - v\<bar>" by linarith
  also have "\<dots> \<le> \<bar>v\<bar> + \<bar>v\<bar> / 2 ^ 53" using double_error [of v] by (rule add_left_mono)
  also have "\<dots> = \<bar>v\<bar> * (1 + 1 / 2 ^ 53)" by (simp only: distrib_left mult_1_right times_divide_eq_right)
  finally show ?thesis .
qed

lemma double_lower: "\<bar>v\<bar> * (1 - 1 / 2 ^ 53) \<le> \<bar>double v\<bar>"
proof -
  have "\<bar>v\<bar> * (1 - 1 / 2 ^ 53) = \<bar>v\<bar> - \<bar>v\<bar> / 2 ^ 53"
    by (simp only: right_diff_distrib mult_1_right times_divide_eq_right)
  also have "\<dots> \<le> \<bar>v\<bar> - \<bar>double v - v\<bar>" using double_error [of v] by (rule diff_left_mono)
  also have "\<dots> \<le> \<bar>double v\<bar>" by linarith
  finally show ?thesis .
qed

lemma double_nonneg: "0 \<le> v \<Longrightarrow> 0 \<le> double v"
proof -
  assume v: "0 \<le> v"
  have "v / 2 ^ 53 \<le> v" using v by (simp add: divide_le_eq)
  with double_error [of v] v show ?thesis by linarith
qed

lemma double_nonneg_lower: "0 \<le> v \<Longrightarrow> v * (1 - 1 / 2 ^ 53) \<le> double v"
  using double_lower [of v] double_nonneg [of v] by simp

lemma double_nonneg_upper: "0 \<le> v \<Longrightarrow> double v \<le> v * (1 + 1 / 2 ^ 53)"
  using double_upper [of v] double_nonneg [of v] by simp

lemma double_zero [simp]: "double 0 = 0"
  by (simp add: double_def)

lemma double_sqrt_eqI:
  assumes p: "p = 2 powr of_int k"
    and lo: "(2 ^ 52 * p)\<^sup>2 \<le> q" and hi: "q < (2 ^ 53 * p)\<^sup>2"
    and below: "((of_int m - 1 / 2) * p)\<^sup>2 < q" and above: "q < ((of_int m + 1 / 2) * p)\<^sup>2"
    and m: "1 \<le> m"
  shows "double (sqrt q) = of_int m * p"
proof (rule double_eqI [OF p])
  have p0: "0 < p" by (simp add: p)
  have q0: "0 \<le> q" using lo by (meson order_trans zero_le_power2)
  show "2 ^ 52 * p \<le> \<bar>sqrt q\<bar>"
    using lo q0 by (simp add: real_le_rsqrt)
  show "\<bar>sqrt q\<bar> < 2 ^ 53 * p"
    using hi q0 p0 by (simp add: real_less_lsqrt)
  have "sqrt q / p = sqrt (q / p\<^sup>2)"
    using p0 by (simp add: real_sqrt_divide)
  moreover have "roundEven (sqrt (q / p\<^sup>2)) = m"
  proof (rule roundEven_sqrtI)
    show "0 \<le> of_int m - (1 / 2 :: real)" using m by linarith
    show "(of_int m - 1 / 2)\<^sup>2 < q / p\<^sup>2"
      using below p0 by (simp add: power_mult_distrib pos_less_divide_eq)
    show "q / p\<^sup>2 < (of_int m + 1 / 2)\<^sup>2"
      using above p0 by (simp add: power_mult_distrib pos_divide_less_eq)
  qed
  ultimately show "roundEven (sqrt q / p) = m" by simp
qed

section \<open>The phases of a tick\<close>

lemma map_update_same: "(map f xs)[i := f (xs ! i)] = map f xs"
  by (cases "i < length xs") (simp_all add: list_update_same_conv list_update_beyond)

lemma map_repel:
  assumes "\<And>n a b. Some (node_id n) \<noteq> d \<Longrightarrow> f (n\<lparr>vx := a, vy := b\<rparr>) = f n"
  shows "map f (repel d i j ns) = map f ns"
  using assms by (simp add: repel_def Let_def map_update map_update_same)

lemma map_spring:
  assumes "\<And>n a b. Some (node_id n) \<noteq> d \<Longrightarrow> f (n\<lparr>vx := a, vy := b\<rparr>) = f n"
  shows "map f (spring d s t ns) = map f ns"
  using assms by (simp add: spring_def Let_def map_update map_update_same)

lemma map_repelAll:
  assumes "\<And>n a b. Some (node_id n) \<noteq> d \<Longrightarrow> f (n\<lparr>vx := a, vy := b\<rparr>) = f n"
  shows "map f (repelAll d ns) = map f ns"
proof -
  have step: "map f (repel d i j u) = map f u" for i j u
    by (rule map_repel) (rule assms)
  have inner: "map f (fold (\<lambda>j. repel d i j) js u) = map f u" for i js u
    by (induction js arbitrary: u) (simp_all add: step)
  have outer: "map f (fold (\<lambda>i. fold (\<lambda>j. repel d i j) (J i)) is u) = map f u" for "is" u J
    by (induction "is" arbitrary: u) (simp_all add: inner)
  show ?thesis unfolding repelAll_def by (rule outer)
qed

lemma map_springAll:
  assumes "\<And>n a b. Some (node_id n) \<noteq> d \<Longrightarrow> f (n\<lparr>vx := a, vy := b\<rparr>) = f n"
    and "springAll d L ns = Some ns'"
  shows "map f ns' = map f ns"
  using assms(2)
proof (induction L arbitrary: ns)
  case Nil
  then show ?case by simp
next
  case (Cons p L)
  obtain s t where p: "p = (s, t)" by (cases p)
  from Cons.prems p have "springAll d L (spring d s t ns) = Some ns'"
    by (simp split: if_splits)
  then have "map f ns' = map f (spring d s t ns)" by (rule Cons.IH)
  moreover have "map f (spring d s t ns) = map f ns"
    by (rule map_spring) (rule assms(1))
  ultimately show ?case by simp
qed

lemma length_repelAll [simp]: "length (repelAll d ns) = length ns"
proof -
  have "map (\<lambda>_. ()) (repelAll d ns) = map (\<lambda>_. ()) ns"
    by (rule map_repelAll) simp
  then show ?thesis by (metis length_map)
qed

lemma length_springAll: "springAll d L ns = Some ns' \<Longrightarrow> length ns' = length ns"
  by (induction L arbitrary: ns) (auto split: if_splits)

lemma springAll_total:
  "linksInRange L (length ns) \<Longrightarrow> \<exists>ns'. springAll d L ns = Some ns'"
  by (induction L arbitrary: ns) (auto simp: linksInRange_def)

lemma springAll_None:
  "\<not> linksInRange L (length ns) \<Longrightarrow> springAll d L ns = None"
  by (induction L arbitrary: ns) (auto simp: linksInRange_def split: if_splits)

lemma tick_phases:
  assumes "linksInRange L (length ns)"
  shows "\<exists>u. tick L d ns = Some (map (center d) u) \<and> length u = length ns \<and>
             (\<forall>i<length ns.
                node_id (u ! i) = node_id (ns ! i) \<and> label (u ! i) = label (ns ! i) \<and>
                properties (u ! i) = properties (ns ! i) \<and>
                x (u ! i) = x (ns ! i) \<and> y (u ! i) = y (ns ! i) \<and>
                (Some (node_id (ns ! i)) = d \<longrightarrow>
                   vx (u ! i) = vx (ns ! i) \<and> vy (u ! i) = vy (ns ! i)))"
proof (cases "ns = []")
  case True
  then have "tick L d ns = Some (map (center d) [])" by (simp add: tick_def)
  with True show ?thesis by auto
next
  case False
  from assms have "linksInRange L (length (repelAll d ns))" by simp
  then obtain u where u: "springAll d L (repelAll d ns) = Some u"
    using springAll_total by blast
  have keep: "map f u = map f ns"
    if "\<And>n a b. Some (node_id n) \<noteq> d \<Longrightarrow> f (n\<lparr>vx := a, vy := b\<rparr>) = f n"
    for f :: "'a SimNode \<Rightarrow> 'b"
  proof -
    have "map f u = map f (repelAll d ns)"
      by (rule map_springAll [OF _ u]) (rule that)
    moreover have "map f (repelAll d ns) = map f ns"
      by (rule map_repelAll) (rule that)
    ultimately show ?thesis by simp
  qed
  have len: "length u = length ns"
    using length_springAll [OF u] by simp
  have k1: "map (\<lambda>n. (node_id n, label n, properties n, x n, y n)) u
          = map (\<lambda>n. (node_id n, label n, properties n, x n, y n)) ns"
    by (rule keep) simp
  have k2: "map (\<lambda>n. if Some (node_id n) = d then Some (vx n, vy n) else None) u
          = map (\<lambda>n. if Some (node_id n) = d then Some (vx n, vy n) else None) ns"
    by (rule keep) simp
  have "node_id (u ! i) = node_id (ns ! i) \<and> label (u ! i) = label (ns ! i) \<and>
        properties (u ! i) = properties (ns ! i) \<and>
        x (u ! i) = x (ns ! i) \<and> y (u ! i) = y (ns ! i) \<and>
        (Some (node_id (ns ! i)) = d \<longrightarrow>
           vx (u ! i) = vx (ns ! i) \<and> vy (u ! i) = vy (ns ! i))"
    if i: "i < length ns" for i
  proof -
    from k1 i len have a: "(node_id (u ! i), label (u ! i), properties (u ! i), x (u ! i), y (u ! i))
        = (node_id (ns ! i), label (ns ! i), properties (ns ! i), x (ns ! i), y (ns ! i))"
      using nth_map [of i u "\<lambda>n. (node_id n, label n, properties n, x n, y n)"]
        nth_map [of i ns "\<lambda>n. (node_id n, label n, properties n, x n, y n)"] by simp
    from k2 i len have b: "(if Some (node_id (u ! i)) = d then Some (vx (u ! i), vy (u ! i)) else None)
        = (if Some (node_id (ns ! i)) = d then Some (vx (ns ! i), vy (ns ! i)) else None)"
      using nth_map [of i u "\<lambda>n. if Some (node_id n) = d then Some (vx n, vy n) else None"]
        nth_map [of i ns "\<lambda>n. if Some (node_id n) = d then Some (vx n, vy n) else None"]
      by simp
    from a b show ?thesis by (auto split: if_splits)
  qed
  moreover have "tick L d ns = Some (map (center d) u)"
    using u False by (simp add: tick_def)
  ultimately show ?thesis using len by blast
qed

lemma center_pinned:
  "Some (node_id n) = d \<Longrightarrow>
   x (center d n) = x n \<and> y (center d n) = y n \<and>
   vx (center d n) = vx n * DAMPING \<and> vy (center d n) = vy n * DAMPING"
  by (simp add: center_def)

lemma clamp_speed:
  fixes a b m :: real
  assumes "0 < m" "a * a + b * b > m * m"
  shows "(a * (m / sqrt (a * a + b * b))) * (a * (m / sqrt (a * a + b * b)))
       + (b * (m / sqrt (a * a + b * b))) * (b * (m / sqrt (a * a + b * b))) = m * m"
proof -
  define s where "s = sqrt (a * a + b * b)"
  define k where "k = m / s"
  have pos: "0 < a * a + b * b" using assms by (meson less_trans mult_pos_pos)
  then have s_pos: "0 < s" by (simp add: s_def)
  have sq: "s * s = a * a + b * b" using pos by (simp add: s_def)
  have "(a * k) * (a * k) + (b * k) * (b * k) = (k * k) * (s * s)"
    unfolding sq by (simp add: algebra_simps)
  also have "k * k * (s * s) = (k * s) * (k * s)" by (simp add: algebra_simps)
  also have "k * s = m" using s_pos by (simp add: k_def)
  finally show ?thesis by (simp add: k_def s_def)
qed

lemma center_free:
  assumes "Some (node_id n) \<noteq> d"
  shows "\<exists>a b. a * a + b * b \<le> MAX_VELOCITY * MAX_VELOCITY \<and>
           center d n = n\<lparr>vx := a, vy := b,
                x := max BOUNDS_MARGIN (min (WIDTH - BOUNDS_MARGIN) (x n + a)),
                y := max BOUNDS_MARGIN (min (HEIGHT - BOUNDS_MARGIN) (y n + b))\<rparr>"
proof -
  define a0 where "a0 = (vx n + (WIDTH / 2 - x n) * CENTER_STRENGTH * DT) * DAMPING"
  define b0 where "b0 = (vy n + (HEIGHT / 2 - y n) * CENTER_STRENGTH * DT) * DAMPING"
  define a where "a = (if a0 * a0 + b0 * b0 > MAX_VELOCITY * MAX_VELOCITY
                       then a0 * (MAX_VELOCITY / sqrt (a0 * a0 + b0 * b0)) else a0)"
  define b where "b = (if a0 * a0 + b0 * b0 > MAX_VELOCITY * MAX_VELOCITY
                       then b0 * (MAX_VELOCITY / sqrt (a0 * a0 + b0 * b0)) else b0)"
  have "center d n = n\<lparr>vx := a, vy := b,
                x := max BOUNDS_MARGIN (min (WIDTH - BOUNDS_MARGIN) (x n + a)),
                y := max BOUNDS_MARGIN (min (HEIGHT - BOUNDS_MARGIN) (y n + b))\<rparr>"
    unfolding center_def Let_def a_def b_def a0_def b0_def
    by (simp only: assms if_False)
  moreover have "a * a + b * b \<le> MAX_VELOCITY * MAX_VELOCITY"
  proof (cases "a0 * a0 + b0 * b0 > MAX_VELOCITY * MAX_VELOCITY")
    case True
    have "0 < MAX_VELOCITY" by (simp add: MAX_VELOCITY_def)
    from clamp_speed [OF this True] True show ?thesis by (simp add: a_def b_def)
  next
    case False
    then show ?thesis by (simp add: a_def b_def)
  qed
  ultimately show ?thesis by blast
qed

lemma center_core:
  "node_id (center d n) = node_id n \<and> label (center d n) = label n \<and>
   properties (center d n) = properties n"
proof (cases "Some (node_id n) = d")
  case True
  then show ?thesis by (simp add: center_def)
next
  case False
  from center_free [OF this] obtain a b where
    "center d n = n\<lparr>vx := a, vy := b,
                x := max BOUNDS_MARGIN (min (WIDTH - BOUNDS_MARGIN) (x n + a)),
                y := max BOUNDS_MARGIN (min (HEIGHT - BOUNDS_MARGIN) (y n + b))\<rparr>"
    by blast
  then show ?thesis by simp
qed

lemma center_free_bounds:
  assumes "Some (node_id n) \<noteq> d"
  shows "BOUNDS_MARGIN \<le> x (center d n) \<and> x (center d n) \<le> WIDTH - BOUNDS_MARGIN \<and>
   BOUNDS_MARGIN \<le> y (center d n) \<and> y (center d n) \<le> HEIGHT - BOUNDS_MARGIN"
proof -
  from center_free [OF assms] obtain a b where
    "center d n = n\<lparr>vx := a, vy := b,
                x := max BOUNDS_MARGIN (min (WIDTH - BOUNDS_MARGIN) (x n + a)),
                y := max BOUNDS_MARGIN (min (HEIGHT - BOUNDS_MARGIN) (y n + b))\<rparr>"
    by blast
  then show ?thesis by (simp add: BOUNDS_MARGIN_def WIDTH_def HEIGHT_def)
qed

lemma center_free_speed:
  assumes "Some (node_id n) \<noteq> d"
  shows "vx (center d n) * vx (center d n) + vy (center d n) * vy (center d n)
         \<le> MAX_VELOCITY * MAX_VELOCITY"
proof -
  from center_free [OF assms] obtain a b where
    "a * a + b * b \<le> MAX_VELOCITY * MAX_VELOCITY"
    "center d n = n\<lparr>vx := a, vy := b,
                x := max BOUNDS_MARGIN (min (WIDTH - BOUNDS_MARGIN) (x n + a)),
                y := max BOUNDS_MARGIN (min (HEIGHT - BOUNDS_MARGIN) (y n + b))\<rparr>"
    by blast
  then show ?thesis by simp
qed

lemma tick_total:
  assumes "linksInRange L (length ns)"
  shows "\<exists>ns'. tick L d ns = Some ns' \<and> length ns' = length ns"
  using tick_phases [OF assms, of d] by auto

lemma tick_length: "tick L d ns = Some ns' \<Longrightarrow> length ns' = length ns"
  by (auto simp: tick_def length_springAll split: if_splits option.splits)

lemma tick_nth:
  assumes "tick L d ns = Some ns'" "i < length ns"
  shows "node_id (ns' ! i) = node_id (ns ! i) \<and> label (ns' ! i) = label (ns ! i) \<and>
         properties (ns' ! i) = properties (ns ! i)"
    and "Some (node_id (ns ! i)) = d \<Longrightarrow>
           x (ns' ! i) = x (ns ! i) \<and> y (ns' ! i) = y (ns ! i) \<and>
           vx (ns' ! i) = vx (ns ! i) * DAMPING \<and> vy (ns' ! i) = vy (ns ! i) * DAMPING"
    and "Some (node_id (ns ! i)) \<noteq> d \<Longrightarrow>
           BOUNDS_MARGIN \<le> x (ns' ! i) \<and> x (ns' ! i) \<le> WIDTH - BOUNDS_MARGIN \<and>
           BOUNDS_MARGIN \<le> y (ns' ! i) \<and> y (ns' ! i) \<le> HEIGHT - BOUNDS_MARGIN \<and>
           vx (ns' ! i) * vx (ns' ! i) + vy (ns' ! i) * vy (ns' ! i)
             \<le> MAX_VELOCITY * MAX_VELOCITY"
proof -
  have inr: "linksInRange L (length ns)"
  proof (rule ccontr)
    assume "\<not> linksInRange L (length ns)"
    then have "springAll d L (repelAll d ns) = None" by (simp add: springAll_None)
    moreover have "ns \<noteq> []" using assms(2) by auto
    ultimately show False using assms(1) by (simp add: tick_def)
  qed
  from tick_phases [OF inr, of d] assms(1) obtain u where
    u: "ns' = map (center d) u" "length u = length ns"
    and k: "\<forall>i<length ns.
                node_id (u ! i) = node_id (ns ! i) \<and> label (u ! i) = label (ns ! i) \<and>
                properties (u ! i) = properties (ns ! i) \<and>
                x (u ! i) = x (ns ! i) \<and> y (u ! i) = y (ns ! i) \<and>
                (Some (node_id (ns ! i)) = d \<longrightarrow>
                   vx (u ! i) = vx (ns ! i) \<and> vy (u ! i) = vy (ns ! i))"
    by auto
  have n: "ns' ! i = center d (u ! i)" using u assms(2) by simp
  from k assms(2) have ki: "node_id (u ! i) = node_id (ns ! i)" "label (u ! i) = label (ns ! i)"
    "properties (u ! i) = properties (ns ! i)" "x (u ! i) = x (ns ! i)" "y (u ! i) = y (ns ! i)"
    by blast+
  show "node_id (ns' ! i) = node_id (ns ! i) \<and> label (ns' ! i) = label (ns ! i) \<and>
         properties (ns' ! i) = properties (ns ! i)"
    using center_core [of d "u ! i"] ki by (simp add: n)
  show "x (ns' ! i) = x (ns ! i) \<and> y (ns' ! i) = y (ns ! i) \<and>
           vx (ns' ! i) = vx (ns ! i) * DAMPING \<and> vy (ns' ! i) = vy (ns ! i) * DAMPING"
    if "Some (node_id (ns ! i)) = d"
  proof -
    from that k assms(2) have "vx (u ! i) = vx (ns ! i)" "vy (u ! i) = vy (ns ! i)" by blast+
    moreover from that ki have "Some (node_id (u ! i)) = d" by simp
    ultimately show ?thesis using center_pinned [of "u ! i" d] ki by (simp add: n)
  qed
  show "BOUNDS_MARGIN \<le> x (ns' ! i) \<and> x (ns' ! i) \<le> WIDTH - BOUNDS_MARGIN \<and>
           BOUNDS_MARGIN \<le> y (ns' ! i) \<and> y (ns' ! i) \<le> HEIGHT - BOUNDS_MARGIN \<and>
           vx (ns' ! i) * vx (ns' ! i) + vy (ns' ! i) * vy (ns' ! i)
             \<le> MAX_VELOCITY * MAX_VELOCITY"
    if "Some (node_id (ns ! i)) \<noteq> d"
  proof -
    from that ki have "Some (node_id (u ! i)) \<noteq> d" by simp
    then show ?thesis
      using center_free_bounds [of "u ! i" d] center_free_speed [of "u ! i" d] by (simp add: n)
  qed
qed

lemma ticks_total:
  "linksInRange L (length ns) \<Longrightarrow> \<exists>ns'. ticks k L d ns = Some ns' \<and> length ns' = length ns"
proof (induction k arbitrary: ns)
  case 0
  then show ?case by simp
next
  case (Suc k)
  from tick_total [OF Suc.prems, of d] obtain m where
    m: "tick L d ns = Some m" "length m = length ns" by blast
  with Suc.prems have "linksInRange L (length m)" by simp
  from Suc.IH [OF this] m show ?case by auto
qed

lemma ticks_Suc_last:
  "ticks (Suc k) L d ns = (case ticks k L d ns of None \<Rightarrow> None | Some m \<Rightarrow> tick L d m)"
proof (induction k arbitrary: ns)
  case 0
  then show ?case by (simp split: option.splits)
next
  case (Suc k)
  show ?case
  proof (cases "tick L d ns")
    case None
    then show ?thesis by simp
  next
    case (Some m)
    then show ?thesis using Suc.IH [of m] by simp
  qed
qed

lemma ticks_nth:
  "ticks k L d ns = Some ns' \<Longrightarrow> i < length ns \<Longrightarrow>
   length ns' = length ns \<and> node_id (ns' ! i) = node_id (ns ! i) \<and>
   label (ns' ! i) = label (ns ! i) \<and> properties (ns' ! i) = properties (ns ! i) \<and>
   (Some (node_id (ns ! i)) = d \<longrightarrow> x (ns' ! i) = x (ns ! i) \<and> y (ns' ! i) = y (ns ! i) \<and>
      vx (ns' ! i) = vx (ns ! i) * DAMPING ^ k \<and> vy (ns' ! i) = vy (ns ! i) * DAMPING ^ k)"
proof (induction k arbitrary: ns)
  case 0
  then show ?case by simp
next
  case (Suc k)
  from Suc.prems(1) obtain m where m: "tick L d ns = Some m" "ticks k L d m = Some ns'"
    by (auto split: option.splits)
  have len: "length m = length ns" using m(1) by (rule tick_length)
  with Suc.prems(2) have i: "i < length m" by simp
  note a = tick_nth [OF m(1) Suc.prems(2)]
  note b = Suc.IH [OF m(2) i]
  show ?case using a(1) a(2) b len by (auto simp: mult.assoc)
qed

section \<open>Link resolution\<close>

text \<open>
  Claim C6.  \<^verbatim>\<open>resolveLinks\<close> never fails: without data it returns the empty list, and with
  data it returns, in input order, exactly the links whose string-coerced source and target
  ids are both keys of the node map, each paired with the nodes the map holds for them.  A
  node map made by \<^verbatim>\<open>createNodeMap\<close> has as keys the string-coerced ids of the nodes, and the
  node it holds for a key is a node of the array with that string-coerced id.  For the nodes
  A, B and the links A to B and A to "missing", the result is the single entry A to B.
\<close>

theorem resolveLinks_subset:
  "resolveLinks None m = [] \<and>
   resolveLinks (Some data) m =
     map (\<lambda>l. \<lparr>link = l, source_node = the (m (String (source l))),
                target_node = the (m (String (target l)))\<rparr>)
         (filter (\<lambda>l. String (source l) \<in> dom m \<and> String (target l) \<in> dom m) (links data)) \<and>
   dom (createNodeMap ns) = (\<lambda>n. String (node_id n)) ` set ns \<and>
   (\<forall>k n. createNodeMap ns k = Some n \<longrightarrow> n \<in> set ns \<and> String (node_id n) = k) \<and>
   resolveLinks
     (Some \<lparr>nodes = [\<lparr>node_id = StrId ''A'', label = None, properties = None :: unit option\<rparr>,
                      \<lparr>node_id = StrId ''B'', label = None, properties = None\<rparr>],
            links = [\<lparr>link_id = NumId 1, source = StrId ''A'', target = StrId ''B'',
                      link_type = None, link_properties = None\<rparr>,
                     \<lparr>link_id = NumId 2, source = StrId ''A'', target = StrId ''missing'',
                      link_type = None, link_properties = None\<rparr>]\<rparr>)
     (createNodeMap
        [\<lparr>node_id = StrId ''A'', label = None, properties = None, x = 16, y = 16, vx = 0, vy = 0\<rparr>,
         \<lparr>node_id = StrId ''B'', label = None, properties = None, x = 944, y = 16, vx = 0, vy = 0\<rparr>])
   = [\<lparr>link = \<lparr>link_id = NumId 1, source = StrId ''A'', target = StrId ''B'',
               link_type = None, link_properties = None\<rparr>,
       source_node = \<lparr>node_id = StrId ''A'', label = None, properties = None,
                      x = 16, y = 16, vx = 0, vy = 0\<rparr>,
       target_node = \<lparr>node_id = StrId ''B'', label = None, properties = None,
                      x = 944, y = 16, vx = 0, vy = 0\<rparr>\<rparr>]"
proof (intro conjI)
  show "resolveLinks None m = []" by (simp add: resolveLinks_def)
  show "resolveLinks (Some data) m =
     map (\<lambda>l. \<lparr>link = l, source_node = the (m (String (source l))),
                target_node = the (m (String (target l)))\<rparr>)
         (filter (\<lambda>l. String (source l) \<in> dom m \<and> String (target l) \<in> dom m) (links data))"
    by (rule resolveLinks_filter)
  show "dom (createNodeMap ns) = (\<lambda>n. String (node_id n)) ` set ns"
    by (rule dom_createNodeMap)
  show "\<forall>k n. createNodeMap ns k = Some n \<longrightarrow> n \<in> set ns \<and> String (node_id n) = k"
    using createNodeMap_Some by blast
  show "resolveLinks
     (Some \<lparr>nodes = [\<lparr>node_id = StrId ''A'', label = None, properties = None :: unit option\<rparr>,
                      \<lparr>node_id = StrId ''B'', label = None, properties = None\<rparr>],
            links = [\<lparr>link_id = NumId 1, source = StrId ''A'', target = StrId ''B'',
                      link_type = None, link_properties = None\<rparr>,
                     \<lparr>link_id = NumId 2, source = StrId ''A'', target = StrId ''missing'',
                      link_type = None, link_properties = None\<rparr>]\<rparr>)
     (createNodeMap
        [\<lparr>node_id = StrId ''A'', label = None, properties = None, x = 16, y = 16, vx = 0, vy = 0\<rparr>,
         \<lparr>node_id = StrId ''B'', label = None, properties = None, x = 944, y = 16, vx = 0, vy = 0\<rparr>])
   = [\<lparr>link = \<lparr>link_id = NumId 1, source = StrId ''A'', target = StrId ''B'',
               link_type = None, link_properties = None\<rparr>,
       source_node = \<lparr>node_id = StrId ''A'', label = None, properties = None,
                      x = 16, y = 16, vx = 0, vy = 0\<rparr>,
       target_node = \<lparr>node_id = StrId ''B'', label = None, properties = None,
                      x = 944, y = 16, vx = 0, vy = 0\<rparr>\<rparr>]"
    by (simp add: resolveLinks_def createNodeMap_def newMap_def)
qed

theorem resolveLinks_subset_witness:
  "createNodeMap
     [\<lparr>node_id = StrId ''A'', label = None, properties = None :: unit option,
       x = 16, y = 16, vx = 0, vy = 0\<rparr>] ''A''
   = Some \<lparr>node_id = StrId ''A'', label = None, properties = None, x = 16, y = 16, vx = 0, vy = 0\<rparr>
   \<and> String (node_id \<lparr>node_id = StrId ''A'', label = None, properties = None :: unit option,
       x = 16, y = 16, vx = 0, vy = 0\<rparr>) = ''A''"
  using resolveLinks_subset
    [of "Map.empty :: string \<rightharpoonup> unit SimNode" "\<lparr>nodes = [], links = []\<rparr>"
        "[\<lparr>node_id = StrId ''A'', label = None, properties = None :: unit option,
           x = 16, y = 16, vx = 0, vy = 0\<rparr>]"]
  by (simp add: createNodeMap_def newMap_def)

section \<open>Self-links\<close>

text \<open>
  Claim C10.  A link whose source and target ids have the same string coercion is dropped
  when the links are pre-resolved into index pairs: the index pairs, and so the tick, are the
  same with and without it, and no index pair has equal ends.  \<^verbatim>\<open>resolveLinks\<close> still
  returns the link whenever its endpoint is a key of the node map.
\<close>

theorem self_link_no_spring:
  assumes "String (source l) = String (target l)"
  shows "simLinks (data\<lparr>links := ls1 @ l # ls2\<rparr>) = simLinks (data\<lparr>links := ls1 @ ls2\<rparr>)
       \<and> tick (simLinks (data\<lparr>links := ls1 @ l # ls2\<rparr>)) d ns
           = tick (simLinks (data\<lparr>links := ls1 @ ls2\<rparr>)) d ns
       \<and> (\<forall>p \<in> set (simLinks (data\<lparr>links := ls1 @ l # ls2\<rparr>)). fst p \<noteq> snd p)
       \<and> (String (source l) \<in> dom m \<longrightarrow>
            \<lparr>link = l, source_node = the (m (String (source l))),
             target_node = the (m (String (target l)))\<rparr>
            \<in> set (resolveLinks (Some (data\<lparr>links := ls1 @ l # ls2\<rparr>)) m))"
proof -
  have eq: "simLinks (data\<lparr>links := ls1 @ l # ls2\<rparr>) = simLinks (data\<lparr>links := ls1 @ ls2\<rparr>)"
    using assms by (simp add: simLinks_filter)
  have "fst p \<noteq> snd p" if "p \<in> set (simLinks (data\<lparr>links := ls1 @ l # ls2\<rparr>))" for p
    using that simLinks_distinct_ends [of "fst p" "snd p"] by simp
  moreover have "\<lparr>link = l, source_node = the (m (String (source l))),
             target_node = the (m (String (target l)))\<rparr>
            \<in> set (resolveLinks (Some (data\<lparr>links := ls1 @ l # ls2\<rparr>)) m)"
    if "String (source l) \<in> dom m"
    using that assms by (simp add: resolveLinks_filter)
  ultimately show ?thesis using eq by simp
qed

theorem self_link_no_spring_witness:
  "String (source \<lparr>link_id = NumId 7, source = StrId ''1'', target = NumId 1,
                    link_type = None, link_properties = None :: unit option\<rparr>)
   = String (target \<lparr>link_id = NumId 7, source = StrId ''1'', target = NumId 1,
                      link_type = None, link_properties = None :: unit option\<rparr>)
   \<and> simLinks \<lparr>nodes = [\<lparr>node_id = NumId 1, label = None, properties = None\<rparr>],
                links = [\<lparr>link_id = NumId 7, source = StrId ''1'', target = NumId 1,
                          link_type = None, link_properties = None :: unit option\<rparr>]\<rparr>
     = simLinks \<lparr>nodes = [\<lparr>node_id = NumId 1, label = None,
                             properties = None :: unit option\<rparr>],
                  links = []\<rparr>"
proof -
  have h: "String (source \<lparr>link_id = NumId 7, source = StrId ''1'', target = NumId 1,
                    link_type = None, link_properties = None :: unit option\<rparr>)
   = String (target \<lparr>link_id = NumId 7, source = StrId ''1'', target = NumId 1,
                      link_type = None, link_properties = None :: unit option\<rparr>)"
    by (simp add: showNat.simps)
  show ?thesis
    using self_link_no_spring
      [of "\<lparr>link_id = NumId 7, source = StrId ''1'', target = NumId 1,
             link_type = None, link_properties = None :: unit option\<rparr>"
          "[]" "[]"
          "\<lparr>nodes = [\<lparr>node_id = NumId 1, label = None, properties = None\<rparr>],
            links = []\<rparr>" None "[] :: unit SimNode list"
          "Map.empty :: string \<rightharpoonup> unit SimNode", OF h]
    by (simp add: showNat.simps)
qed

section \<open>Initial layout\<close>

lemma nth_createInitialNodes:
  assumes "i < length (nodes data)"
  shows "createInitialNodes rnd data ! i =
     \<lparr>node_id = node_id (nodes data ! i), label = label (nodes data ! i),
      properties = properties (nodes data ! i),
      x = marginX + real (i mod cols (length (nodes data))) * cellWidth (length (nodes data))
            + cellWidth (length (nodes data)) * 0.2 * (rnd (2 * i) - 0.5),
      y = marginY + real (i div cols (length (nodes data))) * cellHeight (length (nodes data))
            + cellHeight (length (nodes data)) * 0.2 * (rnd (2 * i + 1) - 0.5),
      vx = 0, vy = 0\<rparr>"
proof -
  from assms have "nodes data \<noteq> []" by auto
  with assms show ?thesis
    by (simp add: createInitialNodes_def Let_def nth_enumerate_eq)
qed

lemma cols_two: "cols 2 = 2"
proof -
  have a: "real 2 * aspect = 464 / 127"
    by (simp add: aspect_def usableWidth_def usableHeight_def WIDTH_def HEIGHT_def
        marginX_def marginY_def)
  have "1 < sqrt (464 / 127)" by (rule real_less_rsqrt) simp
  moreover have "sqrt (464 / 127) \<le> 2" by (rule real_le_lsqrt) simp_all
  ultimately have "\<lceil>sqrt (464 / 127 :: real)\<rceil> = 2" by (simp add: ceiling_eq_iff)
  then show ?thesis unfolding cols_def a by simp
qed

lemma cols_two_Suc: "cols (Suc (Suc 0)) = 2"
  using cols_two by (simp add: numeral_2_eq_2)

lemma length_createInitialNodesD:
  "length (createInitialNodesD rnd data) = length (nodes data)"
  by (simp add: createInitialNodesD_def Let_def)

lemma nth_createInitialNodesD:
  assumes "i < length (nodes data)"
  shows "createInitialNodesD rnd data ! i =
     \<lparr>node_id = node_id (nodes data ! i), label = label (nodes data ! i),
      properties = properties (nodes data ! i),
      x = double (double (marginX + double (real (i mod colsD (length (nodes data)))
                                               * cellWidthD (length (nodes data))))
                  + double (double (cellWidthD (length (nodes data)) * double 0.2)
                            * double (rnd (2 * i) - 0.5))),
      y = double (double (marginY
                   + double (real (nat \<lfloor>double (real i / real (colsD (length (nodes data))))\<rfloor>)
                             * cellHeightD (length (nodes data))))
                  + double (double (cellHeightD (length (nodes data)) * double 0.2)
                            * double (rnd (2 * i + 1) - 0.5))),
      vx = 0, vy = 0\<rparr>"
proof -
  from assms have "nodes data \<noteq> []" by auto
  with assms show ?thesis
    by (simp add: createInitialNodesD_def Let_def nth_enumerate_eq)
qed

lemma colsD_pos: "1 \<le> colsD N"
  by (simp add: colsD_def)

lemma rowsD_pos: "1 \<le> rowsD N"
  by (simp add: rowsD_def)

lemma double_abs_error:
  assumes "\<bar>v\<bar> \<le> 2000"
  shows "\<bar>double v - v\<bar> \<le> 1 / (4 * 10 ^ 12)"
proof -
  have "\<bar>double v - v\<bar> \<le> \<bar>v\<bar> / 2 ^ 53" by (rule double_error)
  also have "\<dots> \<le> 2000 / 2 ^ 53" using assms by (simp add: divide_right_mono)
  also have "\<dots> \<le> 1 / (4 * 10 ^ 12)" by simp
  finally show ?thesis .
qed

lemma double_928: "double 928 = 928"
proof -
  have "double 928 = of_int (928 * 2 ^ 43) * (1 / 2 ^ 43)"
  proof (rule double_eqI [where k = "- 43"])
    show "(1 / 2 ^ 43 :: real) = 2 powr of_int (- 43)"
      by (simp add: powr_minus_divide)
    show "2 ^ 52 * (1 / 2 ^ 43 :: real) \<le> \<bar>928\<bar>" by simp
    show "\<bar>928 :: real\<bar> < 2 ^ 53 * (1 / 2 ^ 43)" by simp
    show "roundEven (928 / (1 / 2 ^ 43)) = 928 * 2 ^ 43"
      by (simp add: roundEven_def Let_def)
  qed
  then show ?thesis by simp
qed

lemma double_508: "double 508 = 508"
proof -
  have "double 508 = of_int (508 * 2 ^ 44) * (1 / 2 ^ 44)"
  proof (rule double_eqI [where k = "- 44"])
    show "(1 / 2 ^ 44 :: real) = 2 powr of_int (- 44)"
      by (simp add: powr_minus_divide)
    show "2 ^ 52 * (1 / 2 ^ 44 :: real) \<le> \<bar>508\<bar>" by simp
    show "\<bar>508 :: real\<bar> < 2 ^ 53 * (1 / 2 ^ 44)" by simp
    show "roundEven (508 / (1 / 2 ^ 44)) = 508 * 2 ^ 44"
      by (simp add: roundEven_def Let_def)
  qed
  then show ?thesis by simp
qed

lemma cellD_range:
  fixes U :: real
  assumes U: "0 \<le> U" and d: "double U = U"
  shows "0 \<le> (if m > 1 then double (U / real (m - 1)) else 0) \<and>
         (if m > 1 then double (U / real (m - 1)) else 0) \<le> U"
proof (cases "m > 1")
  case False
  with U show ?thesis by simp
next
  case True
  define w :: real where "w = 1 + 1 / 2 ^ 53"
  have w: "0 \<le> w" "w \<le> 2" by (simp_all add: w_def)
  have q0: "0 \<le> U / real (m - 1)" using U by simp
  have lo: "0 \<le> double (U / real (m - 1))" using q0 by (rule double_nonneg)
  have "double (U / real (m - 1)) \<le> U"
  proof (cases "m = 2")
    case True
    then show ?thesis by (simp add: d)
  next
    case False
    with \<open>m > 1\<close> have "2 \<le> real (m - 1)" by simp
    then have h: "U / real (m - 1) \<le> U / 2"
      using U by (intro divide_left_mono) simp_all
    have "double (U / real (m - 1)) \<le> U / real (m - 1) * w"
      unfolding w_def using q0 by (rule double_nonneg_upper)
    also have "\<dots> \<le> U / 2 * w"
      using h w(1) by (rule mult_right_mono)
    also have "\<dots> \<le> U / 2 * 2"
      using w(2) U by (intro mult_left_mono) simp_all
    finally show ?thesis by simp
  qed
  with lo True show ?thesis by simp
qed

lemma grid_spanD:
  fixes U :: real
  assumes U: "0 \<le> U" "U \<le> 928" and k: "k \<le> m - 1"
  shows "0 \<le> real k * (if m > 1 then double (U / real (m - 1)) else 0) \<and>
         real k * (if m > 1 then double (U / real (m - 1)) else 0) \<le> U + 1 / 10 ^ 12"
proof (cases "m > 1")
  case False
  with U show ?thesis by simp
next
  case True
  define c where "c = double (U / real (m - 1))"
  define M where "M = real (m - 1)"
  define w :: real where "w = 1 + 1 / 2 ^ 53"
  have w: "928 * w \<le> 928 + 1 / 10 ^ 12" "1 \<le> w" by (simp_all add: w_def)
  have m: "0 < M" using True by (simp add: M_def)
  have kM: "real k \<le> M" unfolding M_def using k by (simp only: of_nat_le_iff)
  have q0: "0 \<le> U / M" using U m by simp
  have c0: "0 \<le> c" unfolding c_def M_def [symmetric] using q0 by (rule double_nonneg)
  have c1: "c \<le> U / M * w"
    unfolding c_def w_def M_def [symmetric] using q0 by (rule double_nonneg_upper)
  have "real k * c \<le> M * c"
    using kM c0 by (rule mult_right_mono)
  also have "\<dots> \<le> M * (U / M * w)"
    using c1 m by (intro mult_left_mono) simp_all
  also have "\<dots> = U * w" using m by simp
  also have "\<dots> = U + U * (w - 1)" by (simp add: algebra_simps)
  also have "\<dots> \<le> U + 928 * (w - 1)"
    using U(2) w(2) by (intro add_left_mono mult_right_mono) simp_all
  also have "\<dots> \<le> U + 1 / 10 ^ 12" using w(1) by (simp add: algebra_simps)
  finally have "real k * c \<le> U + 1 / 10 ^ 12" .
  moreover have "0 \<le> real k * c" using c0 by simp
  ultimately show ?thesis using True by (simp only: c_def if_True)
qed

lemma rowD_lt_rowsD:
  assumes i: "i < N" and N: "N < 2 ^ 53"
  shows "nat \<lfloor>double (real i / real (colsD N))\<rfloor> \<le> rowsD N - 1"
proof -
  define c where "c = colsD N"
  define q where "q = i div c"
  define u :: real where "u = 1 / 2 ^ 53"
  have c: "0 < c" using colsD_pos [of N] by (simp add: c_def)
  have rc: "0 < real c" using c by simp
  have rN: "real N < 2 ^ 53"
  proof -
    from N have "real N < real (2 ^ 53 :: nat)" by (simp only: of_nat_less_iff)
    then show ?thesis by simp
  qed
  have ri: "real i < 2 ^ 53" using rN i by simp
  have iu: "real i * u < 1" using ri by (simp add: u_def)
  have Nu: "real N * u < 1" using rN by (simp add: u_def)
  have "i < (q + 1) * c" unfolding q_def using c
    by (metis Suc_eq_plus1 dividend_less_div_times mult.commute mult_Suc)
  then have "i + 1 \<le> (q + 1) * c" by simp
  then have "real (i + 1) \<le> real ((q + 1) * c)" by (simp only: of_nat_le_iff)
  then have up: "real i + 1 \<le> (real q + 1) * real c" by (simp add: algebra_simps)
  have "q * c \<le> i" unfolding q_def by simp
  then have "q * c + 1 \<le> N" using i by simp
  then have "real (q * c + 1) \<le> real N" by (simp only: of_nat_le_iff)
  then have dn: "real q * real c \<le> real N - 1" by (simp add: algebra_simps)
  have a: "double (real i / real c) < real q + 1"
  proof -
    have "double (real i / real c) \<le> real i / real c * (1 + u)"
      unfolding u_def by (rule double_nonneg_upper) simp
    also have "\<dots> = (real i + real i * u) / real c" by (simp add: algebra_simps add_divide_distrib)
    also have "\<dots> < (real i + 1) / real c"
      using iu rc by (intro divide_strict_right_mono) simp_all
    also have "\<dots> \<le> (real q + 1) * real c / real c"
      using up rc by (intro divide_right_mono) simp_all
    also have "\<dots> = real q + 1" using rc by simp
    finally show ?thesis .
  qed
  have b: "real q < double (real N / real c)"
  proof -
    have "real q = real q * real c / real c" using rc by simp
    also have "\<dots> \<le> (real N - 1) / real c"
      using dn rc by (intro divide_right_mono) simp_all
    also have "\<dots> < (real N - real N * u) / real c"
      using Nu rc by (intro divide_strict_right_mono) simp_all
    also have "\<dots> = real N / real c * (1 - u)" by (simp add: algebra_simps diff_divide_distrib)
    also have "\<dots> \<le> double (real N / real c)"
      unfolding u_def by (rule double_nonneg_lower) simp
    finally show ?thesis .
  qed
  from a have "double (real i / real c) < of_int (int q + 1)" by simp
  then have "\<lfloor>double (real i / real c)\<rfloor> < int q + 1" by (simp only: floor_less_iff)
  then have lo: "nat \<lfloor>double (real i / real c)\<rfloor> \<le> q" by linarith
  from b have "of_int (int q) < double (real N / real c)" by simp
  then have "int q < \<lceil>double (real N / real c)\<rceil>" by (simp only: less_ceiling_iff)
  then have "q < nat \<lceil>double (real N / real c)\<rceil>" by linarith
  then have "q < rowsD N" by (simp add: rowsD_def c_def)
  with lo show ?thesis by (simp add: c_def)
qed

lemma double_small_error:
  fixes e :: real
  assumes "e = 1 / (4 * 10 ^ 12)" "\<bar>v\<bar> \<le> 2000"
  shows "\<bar>double v - v\<bar> \<le> e"
  unfolding assms(1) using assms(2) by (rule double_abs_error)

lemma position_range:
  fixes U cell kc r :: real
  assumes U: "0 \<le> U" "U \<le> 928"
    and cell: "0 \<le> cell" "cell \<le> U"
    and kc: "0 \<le> kc" "kc \<le> U + 1 / 10 ^ 12"
    and r: "0 \<le> r" "r < 1"
  shows "16 - 0.1 * cell - 1 / 1000000000
           \<le> double (double (16 + double kc) + double (double (cell * double 0.2) * double (r - 0.5)))
         \<and> double (double (16 + double kc) + double (double (cell * double 0.2) * double (r - 0.5)))
           \<le> 16 + U + 0.1 * cell + 1 / 1000000000"
proof -
  define e :: real where "e = 1 / (4 * 10 ^ 12)"
  define p where "p = double kc"
  define B where "B = double (16 + p)"
  define t where "t = double 0.2"
  define j1 where "j1 = double (cell * t)"
  define j2 where "j2 = double (r - 0.5)"
  define J where "J = double (j1 * j2)"
  define X where "X = double (B + J)"
  note err = double_small_error [OF e_def]
  have e0: "0 < e" "e \<le> 1 / 1000" "4 * e = 1 / 10 ^ 12" by (simp_all add: e_def)
  have kc2: "kc \<le> U + 4 * e" using kc(2) by (simp only: e0(3))
  have c928: "cell \<le> 928" using cell(2) U(2) by linarith
  have "\<bar>kc\<bar> \<le> 2000" using kc(1) kc2 U(2) e0 by linarith
  then have p1: "\<bar>p - kc\<bar> \<le> e" unfolding p_def by (rule err)
  have p0: "0 \<le> p" unfolding p_def using kc(1) by (rule double_nonneg)
  have pU: "p \<le> U + 5 * e" using p1 kc2 by linarith
  have "\<bar>16 + p\<bar> \<le> 2000" using p0 pU U(2) e0 by linarith
  then have B1: "\<bar>B - (16 + p)\<bar> \<le> e" unfolding B_def by (rule err)
  have Blo: "16 - e \<le> B" using B1 p0 by linarith
  have Bhi: "B \<le> 16 + U + 6 * e" using B1 pU by linarith
  have "\<bar>0.2 :: real\<bar> \<le> 2000" by simp
  then have t1: "\<bar>t - 0.2\<bar> \<le> e" unfolding t_def by (rule err)
  have t0: "0 \<le> t" unfolding t_def by (rule double_nonneg) simp
  have tu: "t \<le> 0.2 + e" using t1 by linarith
  have ct0: "0 \<le> cell * t" using cell(1) t0 by simp
  have "cell * t \<le> cell * (0.2 + e)" using tu cell(1) by (rule mult_left_mono)
  also have "\<dots> = 0.2 * cell + cell * e" by (simp add: algebra_simps)
  also have "\<dots> \<le> 0.2 * cell + 928 * e"
    using c928 e0(1) by (intro add_left_mono mult_right_mono) simp_all
  finally have ct1: "cell * t \<le> 0.2 * cell + 928 * e" .
  have j10: "0 \<le> j1" unfolding j1_def using ct0 by (rule double_nonneg)
  have "\<bar>cell * t\<bar> \<le> 2000" using ct0 ct1 c928 e0 by linarith
  then have "\<bar>j1 - cell * t\<bar> \<le> e" unfolding j1_def by (rule err)
  then have j11: "j1 \<le> 0.2 * cell + 929 * e" using ct1 by linarith
  have "\<bar>r - 0.5\<bar> \<le> 2000" using r by linarith
  then have "\<bar>j2 - (r - 0.5)\<bar> \<le> e" unfolding j2_def by (rule err)
  then have j21: "\<bar>j2\<bar> \<le> 0.5 + e" using r by linarith
  have "\<bar>j1 * j2\<bar> = j1 * \<bar>j2\<bar>" using j10 by (simp add: abs_mult)
  also have "\<dots> \<le> (0.2 * cell + 929 * e) * (0.5 + e)"
    using j11 j21 j10 by (intro mult_mono) simp_all
  also have "\<dots> = 0.1 * cell + cell * (0.2 * e) + e * (929 * (0.5 + e))"
    by (simp add: algebra_simps)
  also have "\<dots> \<le> 0.1 * cell + 928 * (0.2 * e) + e * 930"
  proof (intro add_mono mult_right_mono mult_left_mono)
    show "929 * (0.5 + e) \<le> 930" by (simp add: e_def)
  qed (use c928 cell(1) e0 in simp_all)
  also have "\<dots> \<le> 0.1 * cell + 1200 * e" using e0(1) by linarith
  finally have jj: "\<bar>j1 * j2\<bar> \<le> 0.1 * cell + 1200 * e" .
  have "\<bar>j1 * j2\<bar> \<le> 2000" using jj c928 cell(1) e0 by linarith
  then have "\<bar>J - j1 * j2\<bar> \<le> e" unfolding J_def by (rule err)
  then have J1: "\<bar>J\<bar> \<le> 0.1 * cell + 1201 * e" using jj by linarith
  have "\<bar>B + J\<bar> \<le> 2000" using Blo Bhi J1 c928 cell(1) U e0 by linarith
  then have "\<bar>X - (B + J)\<bar> \<le> e" unfolding X_def by (rule err)
  then have "16 - 0.1 * cell - 1203 * e \<le> X" "X \<le> 16 + U + 0.1 * cell + 1208 * e"
    using Blo Bhi J1 by linarith+
  moreover have "1208 * e \<le> 1 / 1000000000" by (simp add: e_def)
  ultimately have "16 - 0.1 * cell - 1 / 1000000000 \<le> X \<and> X \<le> 16 + U + 0.1 * cell + 1 / 1000000000"
    using e0(1) by linarith
  then show ?thesis unfolding X_def J_def j2_def j1_def t_def B_def p_def .
qed

lemma usable_values: "usableWidth = 928" "usableHeight = 508"
  by (simp_all add: usableWidth_def usableHeight_def WIDTH_def HEIGHT_def marginX_def marginY_def)

lemma cellWidthD_range: "0 \<le> cellWidthD N \<and> cellWidthD N \<le> usableWidth"
  unfolding cellWidthD_def by (rule cellD_range) (simp_all add: usable_values double_928)

lemma cellHeightD_range: "0 \<le> cellHeightD N \<and> cellHeightD N \<le> usableHeight"
  unfolding cellHeightD_def by (rule cellD_range) (simp_all add: usable_values double_508)

lemma colD_span:
  "0 \<le> real (i mod colsD N) * cellWidthD N \<and>
   real (i mod colsD N) * cellWidthD N \<le> usableWidth + 1 / 10 ^ 12"
proof -
  have "i mod colsD N < colsD N" using colsD_pos [of N] by (intro mod_less_divisor) simp
  then have "i mod colsD N \<le> colsD N - 1" by simp
  then show ?thesis unfolding cellWidthD_def
    by (intro grid_spanD) (simp_all add: usable_values)
qed

lemma rowD_span:
  assumes "i < N" "N < 2 ^ 53"
  shows "0 \<le> real (nat \<lfloor>double (real i / real (colsD N))\<rfloor>) * cellHeightD N \<and>
         real (nat \<lfloor>double (real i / real (colsD N))\<rfloor>) * cellHeightD N
           \<le> usableHeight + 1 / 10 ^ 12"
  unfolding cellHeightD_def using rowD_lt_rowsD [OF assms]
  by (intro grid_spanD) (simp_all add: usable_values)

text \<open>
  Claim C5 fails for the positions.  With two nodes the grid has two columns and one row, so
  the cell width is the whole usable width 928; when \<^verbatim>\<open>Math.random()\<close> returns 0 the jitter
  is \<open>-92.8\<close> and the first node starts at \<open>x = -76.8\<close>, left of the margin and of the canvas.
\<close>

theorem createInitialNodes_outside_margin:
  "x (createInitialNodes (\<lambda>k. 0)
        \<lparr>nodes = [\<lparr>node_id = StrId ''a'', label = None, properties = None :: unit option\<rparr>,
                   \<lparr>node_id = StrId ''b'', label = None, properties = None\<rparr>],
         links = []\<rparr> ! 0) = - 76.8
   \<and> \<not> marginX \<le> x (createInitialNodes (\<lambda>k. 0)
        \<lparr>nodes = [\<lparr>node_id = StrId ''a'', label = None, properties = None :: unit option\<rparr>,
                   \<lparr>node_id = StrId ''b'', label = None, properties = None\<rparr>],
         links = []\<rparr> ! 0)"
  by (simp add: nth_createInitialNodes cols_two_Suc cellWidth_def marginX_def usableWidth_def
      WIDTH_def)

text \<open>
  Claim C5, amended.  In double arithmetic, for random numbers in \<open>[0, 1)\<close> and fewer than
  \<open>2\<^sup>3\<^sup>2\<close> nodes (the bound of a JavaScript array), \<^verbatim>\<open>createInitialNodes\<close> returns one node
  per input node, in order and with its id, label and properties, each with velocity
  \<open>(0, 0)\<close> and at most a tenth of a cell, and a rounding allowance of \<open>10\<^sup>-\<^sup>9\<close>, outside the
  margin box: \<open>x\<close> in
  \<open>[marginX - 0.1 * cellWidth - 10\<^sup>-\<^sup>9, WIDTH - marginX + 0.1 * cellWidth + 10\<^sup>-\<^sup>9]\<close> and \<open>y\<close> in
  \<open>[marginY - 0.1 * cellHeight - 10\<^sup>-\<^sup>9, HEIGHT - marginY + 0.1 * cellHeight + 10\<^sup>-\<^sup>9]\<close>, where
  a cell is at most the usable width and height.  For no nodes the result is empty.
\<close>

theorem createInitialNodes_layout:
  assumes "\<forall>k. 0 \<le> rnd k \<and> rnd k < 1" and "length (nodes data) < 2 ^ 32"
  shows "length (createInitialNodesD rnd data) = length (nodes data) \<and>
         map (\<lambda>n. (node_id n, label n, properties n)) (createInitialNodesD rnd data)
           = map (\<lambda>n. (node_id n, label n, properties n)) (nodes data) \<and>
         (\<forall>n \<in> set (createInitialNodesD rnd data).
            vx n = 0 \<and> vy n = 0 \<and>
            marginX - 0.1 * cellWidthD (length (nodes data)) - 1 / 1000000000 \<le> x n \<and>
            x n \<le> WIDTH - marginX + 0.1 * cellWidthD (length (nodes data)) + 1 / 1000000000 \<and>
            marginY - 0.1 * cellHeightD (length (nodes data)) - 1 / 1000000000 \<le> y n \<and>
            y n \<le> HEIGHT - marginY + 0.1 * cellHeightD (length (nodes data)) + 1 / 1000000000) \<and>
         0 \<le> cellWidthD (length (nodes data)) \<and>
         cellWidthD (length (nodes data)) \<le> WIDTH - marginX * 2 \<and>
         0 \<le> cellHeightD (length (nodes data)) \<and>
         cellHeightD (length (nodes data)) \<le> HEIGHT - marginY * 2 \<and>
         (nodes data = [] \<longrightarrow> createInitialNodesD rnd data = [])"
proof (intro conjI ballI impI)
  let ?N = "length (nodes data)"
  show "length (createInitialNodesD rnd data) = ?N" by (rule length_createInitialNodesD)
  show "map (\<lambda>n. (node_id n, label n, properties n)) (createInitialNodesD rnd data)
           = map (\<lambda>n. (node_id n, label n, properties n)) (nodes data)"
    by (rule nth_equalityI) (simp_all add: length_createInitialNodesD nth_createInitialNodesD)
  show "0 \<le> cellWidthD ?N" "cellWidthD ?N \<le> WIDTH - marginX * 2"
    "0 \<le> cellHeightD ?N" "cellHeightD ?N \<le> HEIGHT - marginY * 2"
    using cellWidthD_range [of ?N] cellHeightD_range [of ?N]
    by (simp_all add: usableWidth_def usableHeight_def)
  show "createInitialNodesD rnd data = []" if "nodes data = []"
    using that by (simp add: createInitialNodesD_def)
  fix n assume "n \<in> set (createInitialNodesD rnd data)"
  then obtain i where i: "i < ?N" and n: "n = createInitialNodesD rnd data ! i"
    by (auto simp: in_set_conv_nth length_createInitialNodesD)
  have N53: "?N < 2 ^ 53"
  proof -
    have "(2 :: nat) ^ 32 \<le> 2 ^ 53" by (rule power_increasing) simp_all
    with assms(2) show ?thesis by linarith
  qed
  note e = nth_createInitialNodesD [OF i, of rnd]
  from assms(1) have r: "0 \<le> rnd (2 * i)" "rnd (2 * i) < 1"
    "0 \<le> rnd (2 * i + 1)" "rnd (2 * i + 1) < 1"
    by simp_all
  have U: "0 \<le> usableWidth" "usableWidth \<le> 928" "0 \<le> usableHeight" "usableHeight \<le> 928"
    by (simp_all add: usable_values)
  note cw = cellWidthD_range [of ?N]
  note ch = cellHeightD_range [of ?N]
  note cs = colD_span [of i ?N]
  note rs = rowD_span [OF i N53]
  note px = position_range [OF U(1,2) conjunct1 [OF cw] conjunct2 [OF cw]
      conjunct1 [OF cs] conjunct2 [OF cs] r(1,2)]
  note py = position_range [OF U(3,4) conjunct1 [OF ch] conjunct2 [OF ch]
      conjunct1 [OF rs] conjunct2 [OF rs] r(3,4)]
  have xn: "x n = double (double (16 + double (real (i mod colsD ?N) * cellWidthD ?N))
                  + double (double (cellWidthD ?N * double 0.2) * double (rnd (2 * i) - 0.5)))"
    by (simp add: n e marginX_def)
  have yn: "y n = double (double (16
                   + double (real (nat \<lfloor>double (real i / real (colsD ?N))\<rfloor>) * cellHeightD ?N))
                  + double (double (cellHeightD ?N * double 0.2) * double (rnd (2 * i + 1) - 0.5)))"
    by (simp add: n e marginY_def)
  have W: "WIDTH - marginX = 16 + usableWidth" "HEIGHT - marginY = 16 + usableHeight"
    "marginX = 16" "marginY = 16"
    by (simp_all add: usable_values WIDTH_def HEIGHT_def marginX_def marginY_def)
  show "vx n = 0" "vy n = 0" by (simp_all add: n e)
  show "marginX - 0.1 * cellWidthD ?N - 1 / 1000000000 \<le> x n"
    unfolding xn W(3) using px by (rule conjunct1)
  show "x n \<le> WIDTH - marginX + 0.1 * cellWidthD ?N + 1 / 1000000000"
    unfolding xn W(1) using px by (rule conjunct2)
  show "marginY - 0.1 * cellHeightD ?N - 1 / 1000000000 \<le> y n"
    unfolding yn W(4) using py by (rule conjunct1)
  show "y n \<le> HEIGHT - marginY + 0.1 * cellHeightD ?N + 1 / 1000000000"
    unfolding yn W(2) using py by (rule conjunct2)
qed

text \<open>Two nodes with every random number \<open>1 / 2\<close>.\<close>

theorem createInitialNodes_layout_witness:
  "length (createInitialNodesD (\<lambda>k. 1 / 2)
        \<lparr>nodes = [\<lparr>node_id = StrId ''a'', label = None, properties = None :: unit option\<rparr>,
                   \<lparr>node_id = StrId ''b'', label = None, properties = None\<rparr>],
         links = []\<rparr>) = 2"
  using createInitialNodes_layout [of "\<lambda>k. 1 / 2"
      "\<lparr>nodes = [\<lparr>node_id = StrId ''a'', label = None, properties = None :: unit option\<rparr>,
                   \<lparr>node_id = StrId ''b'', label = None, properties = None\<rparr>],
         links = []\<rparr>"]
  by simp

section \<open>What a tick leaves alone\<close>

text \<open>
  Claim C9.  With index pairs inside the array (as the pre-resolved pairs are), a tick
  returns an array of the same length whose nodes have, position by position, the id, label
  and properties of the current ones: only \<open>x\<close>, \<open>y\<close>, \<open>vx\<close>, \<open>vy\<close> may differ.
\<close>

theorem tick_frame:
  assumes "linksInRange L (length ns)"
  shows "\<exists>ns'. tick L d ns = Some ns' \<and> length ns' = length ns \<and>
           map (\<lambda>n. (node_id n, label n, properties n)) ns'
           = map (\<lambda>n. (node_id n, label n, properties n)) ns"
proof -
  from tick_total [OF assms, of d] obtain ns' where
    t: "tick L d ns = Some ns'" and len: "length ns' = length ns" by blast
  have "map (\<lambda>n. (node_id n, label n, properties n)) ns'
        = map (\<lambda>n. (node_id n, label n, properties n)) ns"
  proof (rule nth_equalityI)
    show "length (map (\<lambda>n. (node_id n, label n, properties n)) ns')
        = length (map (\<lambda>n. (node_id n, label n, properties n)) ns)"
      using len by simp
  next
    fix i
    assume "i < length (map (\<lambda>n. (node_id n, label n, properties n)) ns')"
    then have i: "i < length ns" using len by simp
    from tick_nth(1) [OF t i] i len
    show "map (\<lambda>n. (node_id n, label n, properties n)) ns' ! i
        = map (\<lambda>n. (node_id n, label n, properties n)) ns ! i"
      by simp
  qed
  with t len show ?thesis by blast
qed

text \<open>The frame property at two nodes joined by one link, the second node pinned.\<close>

theorem tick_frame_witness:
  "linksInRange [(0, 1)]
     (length [\<lparr>node_id = StrId ''a'', label = Some ''L'', properties = None :: unit option,
               x = 100, y = 100, vx = 0, vy = 0\<rparr>,
              \<lparr>node_id = NumId 2, label = None, properties = None,
               x = 500, y = 300, vx = 1, vy = 2\<rparr>])
   \<and> (\<exists>ns'. tick [(0, 1)] (Some (NumId 2))
               [\<lparr>node_id = StrId ''a'', label = Some ''L'', properties = None :: unit option,
                 x = 100, y = 100, vx = 0, vy = 0\<rparr>,
                \<lparr>node_id = NumId 2, label = None, properties = None,
                 x = 500, y = 300, vx = 1, vy = 2\<rparr>] = Some ns'
            \<and> map (\<lambda>n. (node_id n, label n, properties n)) ns'
              = [(StrId ''a'', Some ''L'', None), (NumId 2, None, None)])"
proof -
  have h: "linksInRange [(0, 1)]
     (length [\<lparr>node_id = StrId ''a'', label = Some ''L'', properties = None :: unit option,
               x = 100, y = 100, vx = 0, vy = 0\<rparr>,
              \<lparr>node_id = NumId 2, label = None, properties = None,
               x = 500, y = 300, vx = 1, vy = 2\<rparr>])"
    by (simp add: linksInRange_def)
  from tick_frame [OF h, of "Some (NumId 2)"] h show ?thesis by auto
qed

section \<open>The pinned node\<close>

text \<open>
  Claim C4.  A tick keeps the position of a node whose id is the dragged id and multiplies
  its velocity by \<open>DAMPING\<close>: no repulsion, spring, centering or integration reaches it.
  So when the pointer position \<open>(px, py)\<close> has been applied by \<^verbatim>\<open>handlePointerMove\<close> (the
  dragged id is truthy), the node is at \<open>(px, py)\<close> with zero velocity after the tick.
\<close>

theorem pinned_node_follows_pointer:
  assumes "linksInRange L (length ns)" "i < length ns" "node_id (ns ! i) = g"
  shows "(\<exists>ns'. tick L (Some g) ns = Some ns' \<and>
            x (ns' ! i) = x (ns ! i) \<and> y (ns' ! i) = y (ns ! i) \<and>
            vx (ns' ! i) = vx (ns ! i) * DAMPING \<and> vy (ns' ! i) = vy (ns ! i) * DAMPING)
       \<and> (truthy g \<longrightarrow>
            (\<exists>ns'. tick L (Some g) (handlePointerMove (Some g) (px, py) ns) = Some ns' \<and>
               x (ns' ! i) = px \<and> y (ns' ! i) = py \<and> vx (ns' ! i) = 0 \<and> vy (ns' ! i) = 0))"
proof (intro conjI impI)
  from tick_total [OF assms(1), of "Some g"] obtain ns' where
    t: "tick L (Some g) ns = Some ns'" by blast
  from tick_nth(2) [OF t assms(2)] assms(3) t
  show "\<exists>ns'. tick L (Some g) ns = Some ns' \<and>
            x (ns' ! i) = x (ns ! i) \<and> y (ns' ! i) = y (ns ! i) \<and>
            vx (ns' ! i) = vx (ns ! i) * DAMPING \<and> vy (ns' ! i) = vy (ns ! i) * DAMPING"
    by simp
next
  assume g: "truthy g"
  define ms where "ms = handlePointerMove (Some g) (px, py) ns"
  have ne: "ns \<noteq> []" using assms(2) by auto
  have ms: "ms = map (\<lambda>node. if node_id node = g
                            then node\<lparr>x := px, y := py, vx := 0, vy := 0\<rparr>
                            else node) ns"
    using g ne by (simp add: ms_def handlePointerMove_def)
  then have len: "length ms = length ns" by simp
  have mi: "ms ! i = (ns ! i)\<lparr>x := px, y := py, vx := 0, vy := 0\<rparr>"
    using assms(2,3) by (simp add: ms)
  from assms(1) len have "linksInRange L (length ms)" by simp
  from tick_total [OF this, of "Some g"] obtain ns' where
    t: "tick L (Some g) ms = Some ns'" by blast
  have i: "i < length ms" using assms(2) len by simp
  have "Some (node_id (ms ! i)) = Some g" using assms(3) by (simp add: mi)
  from tick_nth(2) [OF t i this]
  have "x (ns' ! i) = px \<and> y (ns' ! i) = py \<and> vx (ns' ! i) = 0 \<and> vy (ns' ! i) = 0"
    by (simp add: mi)
  with t
  show "\<exists>ns'. tick L (Some g) (handlePointerMove (Some g) (px, py) ns) = Some ns' \<and>
               x (ns' ! i) = px \<and> y (ns' ! i) = py \<and> vx (ns' ! i) = 0 \<and> vy (ns' ! i) = 0"
    unfolding ms_def by blast
qed

text \<open>Dragging node \<open>a\<close> of a linked pair to \<open>(700, 20)\<close>.\<close>

theorem pinned_node_follows_pointer_witness:
  "linksInRange [(0, 1)]
     (length [\<lparr>node_id = StrId ''a'', label = None, properties = None :: unit option,
               x = 100, y = 100, vx = 3, vy = 4\<rparr>,
              \<lparr>node_id = StrId ''b'', label = None, properties = None,
               x = 500, y = 300, vx = 0, vy = 0\<rparr>])
   \<and> truthy (StrId ''a'')
   \<and> (\<exists>ns'. tick [(0, 1)] (Some (StrId ''a''))
               (handlePointerMove (Some (StrId ''a'')) (700, 20)
                 [\<lparr>node_id = StrId ''a'', label = None, properties = None :: unit option,
                   x = 100, y = 100, vx = 3, vy = 4\<rparr>,
                  \<lparr>node_id = StrId ''b'', label = None, properties = None,
                   x = 500, y = 300, vx = 0, vy = 0\<rparr>]) = Some ns'
            \<and> x (ns' ! 0) = 700 \<and> y (ns' ! 0) = 20 \<and> vx (ns' ! 0) = 0 \<and> vy (ns' ! 0) = 0)"
proof -
  have h: "linksInRange [(0, 1)]
     (length [\<lparr>node_id = StrId ''a'', label = None, properties = None :: unit option,
               x = 100, y = 100, vx = 3, vy = 4\<rparr>,
              \<lparr>node_id = StrId ''b'', label = None, properties = None,
               x = 500, y = 300, vx = 0, vy = 0\<rparr>])"
    by (simp add: linksInRange_def)
  have i: "0 < length [\<lparr>node_id = StrId ''a'', label = None, properties = None :: unit option,
               x = 100, y = 100, vx = 3, vy = 4\<rparr>,
              \<lparr>node_id = StrId ''b'', label = None, properties = None,
               x = 500, y = 300, vx = 0, vy = 0\<rparr>]"
    by simp
  have g: "node_id ([\<lparr>node_id = StrId ''a'', label = None, properties = None :: unit option,
               x = 100, y = 100, vx = 3, vy = 4\<rparr>,
              \<lparr>node_id = StrId ''b'', label = None, properties = None,
               x = 500, y = 300, vx = 0, vy = 0\<rparr>] ! 0) = StrId ''a''"
    by simp
  have tr: "truthy (StrId ''a'')" by simp
  from pinned_node_follows_pointer [OF h i g, of 700 20] h tr show ?thesis by blast
qed

section \<open>Canvas bounds\<close>

text \<open>
  Claim C2 fails for the pinned node.  With the pointer at the top-left corner of the
  canvas, the dragged node is at \<open>(0, 0)\<close> after the tick, left of \<open>BOUNDS_MARGIN\<close>: the tick
  does not clamp the node it skips.
\<close>

theorem pinned_node_out_of_bounds:
  "tick [] (Some (StrId ''a''))
     (handlePointerMove (Some (StrId ''a'')) (0, 0)
        [\<lparr>node_id = StrId ''a'', label = None, properties = None :: unit option,
          x = 100, y = 100, vx = 0, vy = 0\<rparr>])
   = Some [\<lparr>node_id = StrId ''a'', label = None, properties = None,
            x = 0, y = 0, vx = 0, vy = 0\<rparr>]
   \<and> \<not> BOUNDS_MARGIN \<le> x \<lparr>node_id = StrId ''a'', label = None, properties = None :: unit option,
            x = 0, y = 0, vx = 0, vy = 0\<rparr>"
  by (simp add: handlePointerMove_def tick_def repelAll_def center_def BOUNDS_MARGIN_def)

text \<open>
  Claim C2, amended.  After one or more ticks with the same dragged id, every node whose id
  is not the dragged id lies in \<open>[BOUNDS_MARGIN, WIDTH - BOUNDS_MARGIN]\<close> by
  \<open>[BOUNDS_MARGIN, HEIGHT - BOUNDS_MARGIN]\<close>, wherever it started; a node whose id is the
  dragged id is where it was before the ticks.
\<close>

theorem free_nodes_in_bounds:
  assumes "linksInRange L (length ns)"
  shows "\<exists>ns'. ticks (Suc k) L d ns = Some ns' \<and> length ns' = length ns \<and>
           (\<forall>i<length ns.
              (Some (node_id (ns ! i)) \<noteq> d \<longrightarrow>
                 BOUNDS_MARGIN \<le> x (ns' ! i) \<and> x (ns' ! i) \<le> WIDTH - BOUNDS_MARGIN \<and>
                 BOUNDS_MARGIN \<le> y (ns' ! i) \<and> y (ns' ! i) \<le> HEIGHT - BOUNDS_MARGIN) \<and>
              (Some (node_id (ns ! i)) = d \<longrightarrow>
                 x (ns' ! i) = x (ns ! i) \<and> y (ns' ! i) = y (ns ! i)))"
proof -
  from ticks_total [OF assms, of k d] obtain m where
    m: "ticks k L d ns = Some m" "length m = length ns" by blast
  with assms have "linksInRange L (length m)" by simp
  from tick_total [OF this, of d] obtain ns' where
    t: "tick L d m = Some ns'" "length ns' = length m" by blast
  have s: "ticks (Suc k) L d ns = Some ns'"
    using m(1) t(1) by (simp add: ticks_Suc_last del: ticks.simps)
  have "(Some (node_id (ns ! i)) \<noteq> d \<longrightarrow>
                 BOUNDS_MARGIN \<le> x (ns' ! i) \<and> x (ns' ! i) \<le> WIDTH - BOUNDS_MARGIN \<and>
                 BOUNDS_MARGIN \<le> y (ns' ! i) \<and> y (ns' ! i) \<le> HEIGHT - BOUNDS_MARGIN) \<and>
              (Some (node_id (ns ! i)) = d \<longrightarrow>
                 x (ns' ! i) = x (ns ! i) \<and> y (ns' ! i) = y (ns ! i))"
    if i: "i < length ns" for i
  proof -
    have im: "i < length m" using i m(2) by simp
    have id: "node_id (m ! i) = node_id (ns ! i)" using ticks_nth [OF m(1) i] by simp
    show ?thesis using tick_nth(3) [OF t(1) im] ticks_nth [OF s i] id by auto
  qed
  with s t(2) m(2) show ?thesis by simp
qed

text \<open>Two nodes that start outside the canvas, the first one pinned, after three ticks.\<close>

theorem free_nodes_in_bounds_witness:
  "linksInRange [(0, 1)]
     (length [\<lparr>node_id = StrId ''a'', label = None, properties = None :: unit option,
               x = -50, y = 100, vx = 0, vy = 0\<rparr>,
              \<lparr>node_id = StrId ''b'', label = None, properties = None,
               x = 2000, y = 300, vx = 0, vy = 0\<rparr>])
   \<and> (\<exists>ns'. ticks (Suc 2) [(0, 1)] (Some (StrId ''a''))
               [\<lparr>node_id = StrId ''a'', label = None, properties = None :: unit option,
                 x = -50, y = 100, vx = 0, vy = 0\<rparr>,
                \<lparr>node_id = StrId ''b'', label = None, properties = None,
                 x = 2000, y = 300, vx = 0, vy = 0\<rparr>] = Some ns'
            \<and> BOUNDS_MARGIN \<le> x (ns' ! 1) \<and> x (ns' ! 1) \<le> WIDTH - BOUNDS_MARGIN
            \<and> x (ns' ! 0) = -50)"
proof -
  have h: "linksInRange [(0, 1)]
     (length [\<lparr>node_id = StrId ''a'', label = None, properties = None :: unit option,
               x = -50, y = 100, vx = 0, vy = 0\<rparr>,
              \<lparr>node_id = StrId ''b'', label = None, properties = None,
               x = 2000, y = 300, vx = 0, vy = 0\<rparr>])"
    by (simp add: linksInRange_def)
  from free_nodes_in_bounds [OF h, of 2 "Some (StrId ''a'')"] h show ?thesis
    by (auto simp: less_Suc_eq)
qed

section \<open>Velocity bound\<close>

lemma speed_sq_iff:
  fixes a b m :: real
  assumes "0 \<le> m"
  shows "sqrt (a\<^sup>2 + b\<^sup>2) \<le> m \<longleftrightarrow> a * a + b * b \<le> m * m"
proof
  assume "sqrt (a\<^sup>2 + b\<^sup>2) \<le> m"
  then have "a\<^sup>2 + b\<^sup>2 \<le> m\<^sup>2" by (rule sqrt_le_D)
  then show "a * a + b * b \<le> m * m" by (simp add: power2_eq_square)
next
  assume "a * a + b * b \<le> m * m"
  then have "a\<^sup>2 + b\<^sup>2 \<le> m\<^sup>2" by (simp add: power2_eq_square)
  with assms show "sqrt (a\<^sup>2 + b\<^sup>2) \<le> m" by (rule real_le_lsqrt)
qed

subsection \<open>Rounding in the speed clamp\<close>

lemma damped_component:
  "\<bar>double (v * double DAMPING)\<bar> \<le> \<bar>v\<bar>"
proof -
  define u :: real where "u = 1 / 2 ^ 53"
  have "\<bar>double DAMPING\<bar> \<le> \<bar>DAMPING\<bar> * (1 + u)" unfolding u_def by (rule double_upper)
  then have d: "\<bar>double DAMPING\<bar> \<le> 0.92 * (1 + u)" by (simp add: DAMPING_def)
  have "\<bar>double (v * double DAMPING)\<bar> \<le> \<bar>v * double DAMPING\<bar> * (1 + u)"
    unfolding u_def by (rule double_upper)
  also have "\<dots> = \<bar>v\<bar> * (\<bar>double DAMPING\<bar> * (1 + u))" by (simp add: abs_mult)
  also have "\<dots> \<le> \<bar>v\<bar> * ((0.92 * (1 + u)) * (1 + u))"
    using d by (intro mult_left_mono mult_right_mono) (simp_all add: u_def)
  also have "\<dots> \<le> \<bar>v\<bar> * 1"
    by (intro mult_left_mono) (simp_all add: u_def)
  finally show ?thesis by simp
qed

lemma clamp_rounded:
  fixes a b :: real
  defines "s2 \<equiv> double (double (a * a) + double (b * b))"
  defines "c \<equiv> double (MAX_VELOCITY / double (sqrt s2))"
  shows "(if s2 > MAX_VELOCITY * MAX_VELOCITY
          then (double (a * c))\<^sup>2 + (double (b * c))\<^sup>2 else a\<^sup>2 + b\<^sup>2)
         \<le> (MAX_VELOCITY * (1 + 1 / 2 ^ 50))\<^sup>2"
proof -
  define u :: real where "u = 1 / 2 ^ 53"
  define M :: real where "M = MAX_VELOCITY"
  define E :: real where "E = 1 + 1 / 2 ^ 50"
  define N where "N = sqrt (a\<^sup>2 + b\<^sup>2)"
  have u: "0 < u" "u < 1" by (simp_all add: u_def)
  have M: "0 < M" by (simp add: M_def MAX_VELOCITY_def)
  have E1: "1 \<le> (1 - u) * E" by (simp add: u_def E_def)
  have E2: "(1 + u)\<^sup>2 \<le> E * (1 - u)\<^sup>2" by (simp add: u_def E_def power2_eq_square)
  have E0: "0 < E" by (simp add: E_def)
  have N0: "0 \<le> N" by (simp add: N_def)
  have NN: "N\<^sup>2 = a\<^sup>2 + b\<^sup>2" by (simp add: N_def)
  have la: "a * a * (1 - u) \<le> double (a * a)"
    unfolding u_def by (rule double_nonneg_lower) simp
  have lb: "b * b * (1 - u) \<le> double (b * b)"
    unfolding u_def by (rule double_nonneg_lower) simp
  have t0: "0 \<le> double (a * a) + double (b * b)"
    using double_nonneg [of "a * a"] double_nonneg [of "b * b"] by simp
  have "(double (a * a) + double (b * b)) * (1 - u) \<le> s2"
    unfolding s2_def u_def using t0 by (rule double_nonneg_lower)
  moreover have "(a * a + b * b) * (1 - u) * (1 - u) \<le> (double (a * a) + double (b * b)) * (1 - u)"
    using la lb u by (intro mult_right_mono) (simp_all add: algebra_simps)
  moreover have "N\<^sup>2 * (1 - u)\<^sup>2 = (a * a + b * b) * (1 - u) * (1 - u)"
    unfolding NN by (simp add: power2_eq_square)
  ultimately have s2_lower: "N\<^sup>2 * (1 - u)\<^sup>2 \<le> s2"
    by linarith
  have s2_0: "0 \<le> s2" unfolding s2_def using t0 by (rule double_nonneg)
  show ?thesis
  proof (cases "s2 > MAX_VELOCITY * MAX_VELOCITY")
    case False
    then have "N\<^sup>2 * (1 - u)\<^sup>2 \<le> M\<^sup>2" using s2_lower by (simp add: M_def power2_eq_square)
    then have "(N * (1 - u))\<^sup>2 \<le> M\<^sup>2" by (simp add: power_mult_distrib)
    then have "N * (1 - u) \<le> M" using M N0 u by (simp add: power2_le_iff_abs_le)
    then have "N * (1 - u) * E \<le> M * E" using E0 by simp
    moreover have "N * 1 \<le> N * ((1 - u) * E)" using E1 N0 by (intro mult_left_mono)
    ultimately have "N \<le> M * E" by (simp add: mult.assoc)
    then have "N\<^sup>2 \<le> (M * E)\<^sup>2" using N0 by (simp add: power_mono)
    with False show ?thesis by (simp add: NN M_def E_def)
  next
    case True
    have s2_pos: "0 < s2" using True M by (simp add: M_def MAX_VELOCITY_def) 
    define r where "r = sqrt s2"
    define s where "s = double r"
    have r0: "0 < r" using s2_pos by (simp add: r_def)
    have "(N * (1 - u))\<^sup>2 \<le> s2" using s2_lower by (simp add: power_mult_distrib)
    then have "N * (1 - u) \<le> r" unfolding r_def by (rule real_le_rsqrt)
    have s_lower: "r * (1 - u) \<le> s"
      unfolding s_def u_def using r0 by (intro double_nonneg_lower) simp
    have s_pos: "0 < s" using s_lower r0 u by (smt (verit) mult_pos_pos)
    have Npos: "0 < N"
    proof (rule ccontr)
      assume "\<not> 0 < N"
      with N0 have "N = 0" by simp
      then have "a = 0" "b = 0" using NN by (simp_all add: sum_power2_eq_zero_iff)
      then have "s2 = 0" by (simp add: s2_def double_def)
      with s2_pos show False by simp
    qed
    have c0: "0 \<le> c" unfolding c_def by (rule double_nonneg) (use M s_pos in \<open>simp add: M_def r_def s_def\<close>)
    have c_upper: "c \<le> M / s * (1 + u)"
      unfolding c_def u_def M_def s_def r_def
      by (rule double_nonneg_upper) (use M s_pos in \<open>simp add: M_def r_def s_def\<close>)
    have chain: "N * (1 - u) * (1 - u) \<le> s"
    proof -
      have "N * (1 - u) * (1 - u) \<le> r * (1 - u)"
        using \<open>N * (1 - u) \<le> r\<close> u by (intro mult_right_mono) simp_all
      with s_lower show ?thesis by simp
    qed
    define K where "K = M * E / N"
    have K0: "0 \<le> K" using M E0 Npos by (simp add: K_def)
    have cK: "c * (1 + u) \<le> K"
    proof -
      have "c * (1 + u) \<le> M / s * (1 + u) * (1 + u)"
        using c_upper u by (intro mult_right_mono) simp_all
      also have "\<dots> = M * (1 + u)\<^sup>2 / s" by (simp add: power2_eq_square)
      also have "\<dots> \<le> M * (E * (1 - u)\<^sup>2) / s"
        using E2 M s_pos by (intro divide_right_mono mult_left_mono) simp_all
      also have "\<dots> \<le> M * (E * (1 - u)\<^sup>2) / (N * (1 - u) * (1 - u))"
      proof (rule divide_left_mono [OF chain])
        show "0 \<le> M * (E * (1 - u)\<^sup>2)" using M E0 by simp
        have "0 < N * (1 - u) * (1 - u)" using Npos u by simp
        with s_pos show "0 < s * (N * (1 - u) * (1 - u))" by (rule mult_pos_pos)
      qed
      also have "\<dots> = K" using u Npos by (simp add: K_def power2_eq_square)
      finally show ?thesis .
    qed
    have comp: "\<bar>double (w * c)\<bar> \<le> \<bar>w\<bar> * K" for w
    proof -
      have "\<bar>double (w * c)\<bar> \<le> \<bar>w * c\<bar> * (1 + u)" unfolding u_def by (rule double_upper)
      also have "\<dots> = \<bar>w\<bar> * (c * (1 + u))" using c0 by (simp add: abs_mult)
      also have "\<dots> \<le> \<bar>w\<bar> * K" using cK by (intro mult_left_mono) simp_all
      finally show ?thesis .
    qed
    have sq: "(double (w * c))\<^sup>2 \<le> w\<^sup>2 * K\<^sup>2" for w
    proof -
      have "\<bar>double (w * c)\<bar>\<^sup>2 \<le> (\<bar>w\<bar> * K)\<^sup>2"
        using comp [of w] by (intro power_mono) simp_all
      then show ?thesis by (simp add: power_mult_distrib)
    qed
    have "(double (a * c))\<^sup>2 + (double (b * c))\<^sup>2 \<le> a\<^sup>2 * K\<^sup>2 + b\<^sup>2 * K\<^sup>2"
      using sq [of a] sq [of b] by simp
    also have "\<dots> = N\<^sup>2 * K\<^sup>2" by (simp add: NN algebra_simps)
    also have "\<dots> = (M * E)\<^sup>2" using Npos by (simp add: K_def power_mult_distrib power_divide)
    finally show ?thesis using True by (simp add: M_def E_def)
  qed
qed

subsection \<open>The rounded tick\<close>

lemma map_repelD:
  assumes "\<And>n a b. Some (node_id n) \<noteq> d \<Longrightarrow> f (n\<lparr>vx := a, vy := b\<rparr>) = f n"
  shows "map f (repelD d i j ns) = map f ns"
  using assms by (simp add: repelD_def Let_def map_update map_update_same)

lemma map_springD:
  assumes "\<And>n a b. Some (node_id n) \<noteq> d \<Longrightarrow> f (n\<lparr>vx := a, vy := b\<rparr>) = f n"
  shows "map f (springD d s t ns) = map f ns"
  using assms by (simp add: springD_def Let_def map_update map_update_same)

lemma map_repelAllD:
  assumes "\<And>n a b. Some (node_id n) \<noteq> d \<Longrightarrow> f (n\<lparr>vx := a, vy := b\<rparr>) = f n"
  shows "map f (repelAllD d ns) = map f ns"
proof -
  have step: "map f (repelD d i j u) = map f u" for i j u
    by (rule map_repelD) (rule assms)
  have inner: "map f (fold (\<lambda>j. repelD d i j) js u) = map f u" for i js u
    by (induction js arbitrary: u) (simp_all add: step)
  have outer: "map f (fold (\<lambda>i. fold (\<lambda>j. repelD d i j) (J i)) is u) = map f u" for "is" u J
    by (induction "is" arbitrary: u) (simp_all add: inner)
  show ?thesis unfolding repelAllD_def by (rule outer)
qed

lemma map_springAllD:
  assumes "\<And>n a b. Some (node_id n) \<noteq> d \<Longrightarrow> f (n\<lparr>vx := a, vy := b\<rparr>) = f n"
    and "springAllD d L ns = Some ns'"
  shows "map f ns' = map f ns"
  using assms(2)
proof (induction L arbitrary: ns)
  case Nil
  then show ?case by simp
next
  case (Cons p L)
  obtain s t where p: "p = (s, t)" by (cases p)
  from Cons.prems p have "springAllD d L (springD d s t ns) = Some ns'"
    by (simp split: if_splits)
  then have "map f ns' = map f (springD d s t ns)" by (rule Cons.IH)
  moreover have "map f (springD d s t ns) = map f ns"
    by (rule map_springD) (rule assms(1))
  ultimately show ?case by simp
qed

lemma length_repelD [simp]: "length (repelD d i j ns) = length ns"
  by (simp add: repelD_def Let_def)

lemma length_springD [simp]: "length (springD d s t ns) = length ns"
  by (simp add: springD_def Let_def)

lemma length_repelAllD [simp]: "length (repelAllD d ns) = length ns"
proof -
  have "map (\<lambda>_. ()) (repelAllD d ns) = map (\<lambda>_. ()) ns"
    by (rule map_repelAllD) simp
  then show ?thesis by (metis length_map)
qed

lemma length_springAllD: "springAllD d L ns = Some ns' \<Longrightarrow> length ns' = length ns"
  by (induction L arbitrary: ns) (auto split: if_splits)

lemma springAllD_total:
  "linksInRange L (length ns) \<Longrightarrow> \<exists>ns'. springAllD d L ns = Some ns'"
  by (induction L arbitrary: ns) (auto simp: linksInRange_def)

lemma tickD_phases:
  fixes ns :: "'p SimNode list"
  assumes "linksInRange L (length ns)"
  shows "\<exists>u. tickD L d ns = Some (map (centerD d) u) \<and> length u = length ns \<and>
             (\<forall>i<length ns.
                node_id (u ! i) = node_id (ns ! i) \<and>
                (Some (node_id (ns ! i)) = d \<longrightarrow>
                   vx (u ! i) = vx (ns ! i) \<and> vy (u ! i) = vy (ns ! i)))"
proof (cases "ns = []")
  case True
  then have "tickD L d ns = Some (map (centerD d) [])" by (simp add: tickD_def)
  with True show ?thesis by auto
next
  case False
  from assms have "linksInRange L (length (repelAllD d ns))" by simp
  then obtain u where u: "springAllD d L (repelAllD d ns) = Some u"
    using springAllD_total by blast
  have keep: "map f u = map f ns"
    if "\<And>n a b. Some (node_id n) \<noteq> d \<Longrightarrow> f (n\<lparr>vx := a, vy := b\<rparr>) = f n"
    for f :: "'p SimNode \<Rightarrow> 'b"
  proof -
    have "map f u = map f (repelAllD d ns)"
      by (rule map_springAllD [OF _ u]) (rule that)
    moreover have "map f (repelAllD d ns) = map f ns"
      by (rule map_repelAllD) (rule that)
    ultimately show ?thesis by simp
  qed
  have len: "length u = length ns"
    using length_springAllD [OF u] by simp
  have k1: "map node_id u = map node_id ns"
    by (rule keep) simp
  have k2: "map (\<lambda>n. if Some (node_id n) = d then Some (vx n, vy n) else None) u
          = map (\<lambda>n. if Some (node_id n) = d then Some (vx n, vy n) else None) ns"
    by (rule keep) simp
  have "node_id (u ! i) = node_id (ns ! i) \<and>
        (Some (node_id (ns ! i)) = d \<longrightarrow>
           vx (u ! i) = vx (ns ! i) \<and> vy (u ! i) = vy (ns ! i))"
    if i: "i < length ns" for i
  proof -
    from k1 i len have a: "node_id (u ! i) = node_id (ns ! i)"
      using nth_map [of i u node_id] nth_map [of i ns node_id] by simp
    from k2 i len have b: "(if Some (node_id (u ! i)) = d then Some (vx (u ! i), vy (u ! i)) else None)
        = (if Some (node_id (ns ! i)) = d then Some (vx (ns ! i), vy (ns ! i)) else None)"
      using nth_map [of i u "\<lambda>n. if Some (node_id n) = d then Some (vx n, vy n) else None"]
        nth_map [of i ns "\<lambda>n. if Some (node_id n) = d then Some (vx n, vy n) else None"]
      by simp
    from a b show ?thesis by (auto split: if_splits)
  qed
  moreover have "tickD L d ns = Some (map (centerD d) u)"
    using u False by (simp add: tickD_def)
  ultimately show ?thesis using len by blast
qed

lemma centerD_pinned_speed:
  assumes "Some (node_id n) = d"
  shows "(vx (centerD d n))\<^sup>2 + (vy (centerD d n))\<^sup>2 \<le> (vx n)\<^sup>2 + (vy n)\<^sup>2"
proof -
  have "\<bar>double (vx n * double DAMPING)\<bar>\<^sup>2 \<le> \<bar>vx n\<bar>\<^sup>2"
    using damped_component [of "vx n"] by (intro power_mono) simp_all
  moreover have "\<bar>double (vy n * double DAMPING)\<bar>\<^sup>2 \<le> \<bar>vy n\<bar>\<^sup>2"
    using damped_component [of "vy n"] by (intro power_mono) simp_all
  ultimately show ?thesis using assms by (simp add: centerD_def)
qed

lemma centerD_free_speed:
  assumes "Some (node_id n) \<noteq> d"
  shows "(vx (centerD d n))\<^sup>2 + (vy (centerD d n))\<^sup>2 \<le> (MAX_VELOCITY * (1 + 1 / 2 ^ 50))\<^sup>2"
proof -
  define a where "a = double (double (vx n
            + double (double (double (WIDTH / 2 - x n) * double CENTER_STRENGTH) * double DT))
            * double DAMPING)"
  define b where "b = double (double (vy n
            + double (double (double (HEIGHT / 2 - y n) * double CENTER_STRENGTH) * double DT))
            * double DAMPING)"
  define s2 where "s2 = double (double (a * a) + double (b * b))"
  define c where "c = double (MAX_VELOCITY / double (sqrt s2))"
  define a2 where "a2 = (if s2 > MAX_VELOCITY * MAX_VELOCITY then double (a * c) else a)"
  define b2 where "b2 = (if s2 > MAX_VELOCITY * MAX_VELOCITY then double (b * c) else b)"
  have "centerD d n = n\<lparr>vx := a2, vy := b2,
          x := max BOUNDS_MARGIN (min (WIDTH - BOUNDS_MARGIN) (double (x n + a2))),
          y := max BOUNDS_MARGIN (min (HEIGHT - BOUNDS_MARGIN) (double (y n + b2)))\<rparr>"
    unfolding centerD_def Let_def a2_def b2_def c_def s2_def a_def b_def
    by (simp only: assms if_False)
  then have v: "vx (centerD d n) = a2" "vy (centerD d n) = b2" by simp_all
  have "a2\<^sup>2 + b2\<^sup>2 = (if s2 > MAX_VELOCITY * MAX_VELOCITY
          then (double (a * c))\<^sup>2 + (double (b * c))\<^sup>2 else a\<^sup>2 + b\<^sup>2)"
    by (simp add: a2_def b2_def)
  also have "\<dots> \<le> (MAX_VELOCITY * (1 + 1 / 2 ^ 50))\<^sup>2"
    unfolding s2_def c_def by (rule clamp_rounded)
  finally show ?thesis by (simp only: v)
qed

lemma tickD_total:
  assumes "linksInRange L (length ns)"
  shows "\<exists>ns'. tickD L d ns = Some ns' \<and> length ns' = length ns"
  using tickD_phases [OF assms, of d] by auto

lemma speed_le_iff:
  fixes a b m :: real
  assumes "0 \<le> m"
  shows "sqrt (a\<^sup>2 + b\<^sup>2) \<le> m \<longleftrightarrow> a\<^sup>2 + b\<^sup>2 \<le> m\<^sup>2"
  using speed_sq_iff [OF assms, of a b] by (simp add: power2_eq_square)

lemma tickD_speed:
  fixes ns :: "'p SimNode list"
  assumes inr: "linksInRange L (length ns)"
    and t: "tickD L d ns = Some ns'"
    and ok: "\<forall>n\<in>set ns. sqrt ((vx n)\<^sup>2 + (vy n)\<^sup>2) \<le> MAX_VELOCITY * (1 + 1 / 2 ^ 50)"
  shows "\<forall>n\<in>set ns'. sqrt ((vx n)\<^sup>2 + (vy n)\<^sup>2) \<le> MAX_VELOCITY * (1 + 1 / 2 ^ 50)"
proof
  fix n assume "n \<in> set ns'"
  have B0: "0 \<le> MAX_VELOCITY * (1 + 1 / 2 ^ 50)" by (simp add: MAX_VELOCITY_def)
  from tickD_phases [OF inr, of d] t obtain u where
    u: "ns' = map (centerD d) u" "length u = length ns"
    and k: "\<forall>i<length ns. node_id (u ! i) = node_id (ns ! i) \<and>
                (Some (node_id (ns ! i)) = d \<longrightarrow>
                   vx (u ! i) = vx (ns ! i) \<and> vy (u ! i) = vy (ns ! i))"
    by auto
  from \<open>n \<in> set ns'\<close> u obtain i where i: "i < length ns" "n = centerD d (u ! i)"
    by (auto simp: in_set_conv_nth)
  show "sqrt ((vx n)\<^sup>2 + (vy n)\<^sup>2) \<le> MAX_VELOCITY * (1 + 1 / 2 ^ 50)"
  proof (cases "Some (node_id (u ! i)) = d")
    case True
    with k i have same: "vx (u ! i) = vx (ns ! i)" "vy (u ! i) = vy (ns ! i)" by auto
    from ok i have "sqrt ((vx (ns ! i))\<^sup>2 + (vy (ns ! i))\<^sup>2) \<le> MAX_VELOCITY * (1 + 1 / 2 ^ 50)"
      by simp
    then have "(vx (ns ! i))\<^sup>2 + (vy (ns ! i))\<^sup>2 \<le> (MAX_VELOCITY * (1 + 1 / 2 ^ 50))\<^sup>2"
      by (simp only: speed_le_iff [OF B0])
    moreover have "(vx n)\<^sup>2 + (vy n)\<^sup>2 \<le> (vx (ns ! i))\<^sup>2 + (vy (ns ! i))\<^sup>2"
      using centerD_pinned_speed [OF True] by (simp only: i(2) same)
    ultimately have "(vx n)\<^sup>2 + (vy n)\<^sup>2 \<le> (MAX_VELOCITY * (1 + 1 / 2 ^ 50))\<^sup>2"
      by linarith
    then show ?thesis by (simp only: speed_le_iff [OF B0])
  next
    case False
    from centerD_free_speed [OF False]
    have "(vx n)\<^sup>2 + (vy n)\<^sup>2 \<le> (MAX_VELOCITY * (1 + 1 / 2 ^ 50))\<^sup>2"
      by (simp only: i(2))
    then show ?thesis by (simp only: speed_le_iff [OF B0])
  qed
qed

lemma tickD_length: "tickD L d ns = Some ns' \<Longrightarrow> length ns' = length ns"
  by (auto simp: tickD_def length_springAllD split: if_splits option.splits)

lemma ticksD_length: "ticksD k L d ns = Some ns' \<Longrightarrow> length ns' = length ns"
proof (induction k arbitrary: ns)
  case 0
  then show ?case by simp
next
  case (Suc k)
  from Suc.prems obtain m where m: "tickD L d ns = Some m" "ticksD k L d m = Some ns'"
    by (auto split: option.splits)
  from Suc.IH [OF m(2)] tickD_length [OF m(1)] show ?case by simp
qed

subsection \<open>The tick of a close pair, in doubles\<close>

lemma dbl_0: "double (1 / 100) = 5764607523034235 / 576460752303423488"
proof -
  have "double (1 / 100) = of_int (5764607523034235) * (1 / 2 ^ 59)"
  proof (rule double_eqI [where k = "-59"])
    show "(1 / 2 ^ 59 :: real) = 2 powr of_int (-59)" by (simp add: powr_minus_divide)
    show "2 ^ 52 * (1 / 2 ^ 59) \<le> \<bar>1 / 100 :: real\<bar>" by simp
    show "\<bar>1 / 100 :: real\<bar> < 2 ^ 53 * (1 / 2 ^ 59)" by simp
    show "roundEven (1 / 100 / (1 / 2 ^ 59)) = 5764607523034235"
      by (simp add: roundEven_def Let_def)
  qed
  then show ?thesis by simp
qed

lemma dbl_1: "double (2 / 125) = 1152921504606847 / 72057594037927936"
proof -
  have "double (2 / 125) = of_int (4611686018427388) * (1 / 2 ^ 58)"
  proof (rule double_eqI [where k = "-58"])
    show "(1 / 2 ^ 58 :: real) = 2 powr of_int (-58)" by (simp add: powr_minus_divide)
    show "2 ^ 52 * (1 / 2 ^ 58) \<le> \<bar>2 / 125 :: real\<bar>" by simp
    show "\<bar>2 / 125 :: real\<bar> < 2 ^ 53 * (1 / 2 ^ 58)" by simp
    show "roundEven (2 / 125 / (1 / 2 ^ 58)) = 4611686018427388"
      by (simp add: roundEven_def Let_def)
  qed
  then show ?thesis by simp
qed

lemma dbl_2: "double (1 / 200) = 5764607523034235 / 1152921504606846976"
proof -
  have "double (1 / 200) = of_int (5764607523034235) * (1 / 2 ^ 60)"
  proof (rule double_eqI [where k = "-60"])
    show "(1 / 2 ^ 60 :: real) = 2 powr of_int (-60)" by (simp add: powr_minus_divide)
    show "2 ^ 52 * (1 / 2 ^ 60) \<le> \<bar>1 / 200 :: real\<bar>" by simp
    show "\<bar>1 / 200 :: real\<bar> < 2 ^ 53 * (1 / 2 ^ 60)" by simp
    show "roundEven (1 / 200 / (1 / 2 ^ 60)) = 5764607523034235"
      by (simp add: roundEven_def Let_def)
  qed
  then show ?thesis by simp
qed

lemma dbl_3: "double (23 / 25) = 8286623314361713 / 9007199254740992"
proof -
  have "double (23 / 25) = of_int (8286623314361713) * (1 / 2 ^ 53)"
  proof (rule double_eqI [where k = "-53"])
    show "(1 / 2 ^ 53 :: real) = 2 powr of_int (-53)" by (simp add: powr_minus_divide)
    show "2 ^ 52 * (1 / 2 ^ 53) \<le> \<bar>23 / 25 :: real\<bar>" by simp
    show "\<bar>23 / 25 :: real\<bar> < 2 ^ 53 * (1 / 2 ^ 53)" by simp
    show "roundEven (23 / 25 / (1 / 2 ^ 53)) = 8286623314361713"
      by (simp add: roundEven_def Let_def)
  qed
  then show ?thesis by simp
qed

lemma dbl_4: "double (9 / 16) = 9 / 16"
proof -
  have "double (9 / 16) = of_int (5066549580791808) * (1 / 2 ^ 53)"
  proof (rule double_eqI [where k = "-53"])
    show "(1 / 2 ^ 53 :: real) = 2 powr of_int (-53)" by (simp add: powr_minus_divide)
    show "2 ^ 52 * (1 / 2 ^ 53) \<le> \<bar>9 / 16 :: real\<bar>" by simp
    show "\<bar>9 / 16 :: real\<bar> < 2 ^ 53 * (1 / 2 ^ 53)" by simp
    show "roundEven (9 / 16 / (1 / 2 ^ 53)) = 5066549580791808"
      by (simp add: roundEven_def Let_def)
  qed
  then show ?thesis by simp
qed

lemma dbl_5: "double (81 / 256) = 81 / 256"
proof -
  have "double (81 / 256) = of_int (5699868278390784) * (1 / 2 ^ 54)"
  proof (rule double_eqI [where k = "-54"])
    show "(1 / 2 ^ 54 :: real) = 2 powr of_int (-54)" by (simp add: powr_minus_divide)
    show "2 ^ 52 * (1 / 2 ^ 54) \<le> \<bar>81 / 256 :: real\<bar>" by simp
    show "\<bar>81 / 256 :: real\<bar> < 2 ^ 53 * (1 / 2 ^ 54)" by simp
    show "roundEven (81 / 256 / (1 / 2 ^ 54)) = 5699868278390784"
      by (simp add: roundEven_def Let_def)
  qed
  then show ?thesis by simp
qed

lemma dbl_6: "double (188160392431539323 / 576460752303423488) = 1470003065871401 / 4503599627370496"
proof -
  have "double (188160392431539323 / 576460752303423488) = of_int (5880012263485604) * (1 / 2 ^ 54)"
  proof (rule double_eqI [where k = "-54"])
    show "(1 / 2 ^ 54 :: real) = 2 powr of_int (-54)" by (simp add: powr_minus_divide)
    show "2 ^ 52 * (1 / 2 ^ 54) \<le> \<bar>188160392431539323 / 576460752303423488 :: real\<bar>" by simp
    show "\<bar>188160392431539323 / 576460752303423488 :: real\<bar> < 2 ^ 53 * (1 / 2 ^ 54)" by simp
    show "roundEven (188160392431539323 / 576460752303423488 / (1 / 2 ^ 54)) = 5880012263485604"
      by (simp add: roundEven_def Let_def)
  qed
  then show ?thesis by simp
qed

lemma dbl_7: "double (6755399441055744000 / 1470003065871401) = 4934380809191 / 1073741824"
proof -
  have "double (6755399441055744000 / 1470003065871401) = of_int (5052805948611584) * (1 / 2 ^ 40)"
  proof (rule double_eqI [where k = "-40"])
    show "(1 / 2 ^ 40 :: real) = 2 powr of_int (-40)" by (simp add: powr_minus_divide)
    show "2 ^ 52 * (1 / 2 ^ 40) \<le> \<bar>6755399441055744000 / 1470003065871401 :: real\<bar>" by simp
    show "\<bar>6755399441055744000 / 1470003065871401 :: real\<bar> < 2 ^ 53 * (1 / 2 ^ 40)" by simp
    show "roundEven (6755399441055744000 / 1470003065871401 / (1 / 2 ^ 40)) = 5052805948611584"
      by (simp add: roundEven_def Let_def)
  qed
  then show ?thesis by simp
qed

lemma dbl_8: "double (sqrt (1470003065871401 / 4503599627370496)) = 5145990773288241 / 9007199254740992"
proof -
  have "double (sqrt (1470003065871401 / 4503599627370496)) = of_int (5145990773288241) * (1 / 2 ^ 53)"
  proof (rule double_sqrt_eqI [where k = "-53"])
    show "(1 / 2 ^ 53 :: real) = 2 powr of_int (-53)" by (simp add: powr_minus_divide)
    show "(2 ^ 52 * (1 / 2 ^ 53))\<^sup>2 \<le> (1470003065871401 / 4503599627370496 :: real)" by (simp add: power2_eq_square)
    show "(1470003065871401 / 4503599627370496 :: real) < (2 ^ 53 * (1 / 2 ^ 53))\<^sup>2" by (simp add: power2_eq_square)
    show "((of_int (5145990773288241) - 1 / 2) * (1 / 2 ^ 53))\<^sup>2 < (1470003065871401 / 4503599627370496 :: real)" by (simp add: power2_eq_square)
    show "(1470003065871401 / 4503599627370496 :: real) < ((of_int (5145990773288241) + 1 / 2) * (1 / 2 ^ 53))\<^sup>2" by (simp add: power2_eq_square)
    show "1 \<le> (5145990773288241 :: int)" by simp
  qed
  then show ?thesis by simp
qed

lemma dbl_9: "double (9007199254740992 / 5145990773288241) = 7882800610111237 / 4503599627370496"
proof -
  have "double (9007199254740992 / 5145990773288241) = of_int (7882800610111237) * (1 / 2 ^ 52)"
  proof (rule double_eqI [where k = "-52"])
    show "(1 / 2 ^ 52 :: real) = 2 powr of_int (-52)" by (simp add: powr_minus_divide)
    show "2 ^ 52 * (1 / 2 ^ 52) \<le> \<bar>9007199254740992 / 5145990773288241 :: real\<bar>" by simp
    show "\<bar>9007199254740992 / 5145990773288241 :: real\<bar> < 2 ^ 53 * (1 / 2 ^ 52)" by simp
    show "roundEven (9007199254740992 / 5145990773288241 / (1 / 2 ^ 52)) = 7882800610111237"
      by (simp add: roundEven_def Let_def)
  qed
  then show ?thesis by simp
qed

lemma dbl_10: "double (70945205491001133 / 72057594037927936) = 4434075343187571 / 4503599627370496"
proof -
  have "double (70945205491001133 / 72057594037927936) = of_int (8868150686375142) * (1 / 2 ^ 53)"
  proof (rule double_eqI [where k = "-53"])
    show "(1 / 2 ^ 53 :: real) = 2 powr of_int (-53)" by (simp add: powr_minus_divide)
    show "2 ^ 52 * (1 / 2 ^ 53) \<le> \<bar>70945205491001133 / 72057594037927936 :: real\<bar>" by simp
    show "\<bar>70945205491001133 / 72057594037927936 :: real\<bar> < 2 ^ 53 * (1 / 2 ^ 53)" by simp
    show "roundEven (70945205491001133 / 72057594037927936 / (1 / 2 ^ 53)) = 8868150686375142"
      by (simp add: roundEven_def Let_def)
  qed
  then show ?thesis by simp
qed

lemma dbl_11: "double (21879416279931747620273765061 / 4835703278458516698824704) = 4974803296120569 / 1099511627776"
proof -
  have "double (21879416279931747620273765061 / 4835703278458516698824704) = of_int (4974803296120569) * (1 / 2 ^ 40)"
  proof (rule double_eqI [where k = "-40"])
    show "(1 / 2 ^ 40 :: real) = 2 powr of_int (-40)" by (simp add: powr_minus_divide)
    show "2 ^ 52 * (1 / 2 ^ 40) \<le> \<bar>21879416279931747620273765061 / 4835703278458516698824704 :: real\<bar>" by simp
    show "\<bar>21879416279931747620273765061 / 4835703278458516698824704 :: real\<bar> < 2 ^ 53 * (1 / 2 ^ 40)" by simp
    show "roundEven (21879416279931747620273765061 / 4835703278458516698824704 / (1 / 2 ^ 40)) = 4974803296120569"
      by (simp add: roundEven_def Let_def)
  qed
  then show ?thesis by simp
qed

lemma dbl_12: "double (5735557701286428232656654935943 / 79228162514264337593543950336) = 5094198575227463 / 70368744177664"
proof -
  have "double (5735557701286428232656654935943 / 79228162514264337593543950336) = of_int (5094198575227463) * (1 / 2 ^ 46)"
  proof (rule double_eqI [where k = "-46"])
    show "(1 / 2 ^ 46 :: real) = 2 powr of_int (-46)" by (simp add: powr_minus_divide)
    show "2 ^ 52 * (1 / 2 ^ 46) \<le> \<bar>5735557701286428232656654935943 / 79228162514264337593543950336 :: real\<bar>" by simp
    show "\<bar>5735557701286428232656654935943 / 79228162514264337593543950336 :: real\<bar> < 2 ^ 53 * (1 / 2 ^ 46)" by simp
    show "roundEven (5735557701286428232656654935943 / 79228162514264337593543950336 / (1 / 2 ^ 46)) = 5094198575227463"
      by (simp add: roundEven_def Let_def)
  qed
  then show ?thesis by simp
qed

lemma dbl_13: "double (5094198575227463 / 70368744177664) = 5094198575227463 / 70368744177664"
proof -
  have "double (5094198575227463 / 70368744177664) = of_int (5094198575227463) * (1 / 2 ^ 46)"
  proof (rule double_eqI [where k = "-46"])
    show "(1 / 2 ^ 46 :: real) = 2 powr of_int (-46)" by (simp add: powr_minus_divide)
    show "2 ^ 52 * (1 / 2 ^ 46) \<le> \<bar>5094198575227463 / 70368744177664 :: real\<bar>" by simp
    show "\<bar>5094198575227463 / 70368744177664 :: real\<bar> < 2 ^ 53 * (1 / 2 ^ 46)" by simp
    show "roundEven (5094198575227463 / 70368744177664 / (1 / 2 ^ 46)) = 5094198575227463"
      by (simp add: roundEven_def Let_def)
  qed
  then show ?thesis by simp
qed

lemma dbl_14: "double (- (5094198575227463 / 70368744177664)) = - (5094198575227463 / 70368744177664)"
proof -
  have "double (- (5094198575227463 / 70368744177664)) = of_int (-5094198575227463) * (1 / 2 ^ 46)"
  proof (rule double_eqI [where k = "-46"])
    show "(1 / 2 ^ 46 :: real) = 2 powr of_int (-46)" by (simp add: powr_minus_divide)
    show "2 ^ 52 * (1 / 2 ^ 46) \<le> \<bar>- (5094198575227463 / 70368744177664) :: real\<bar>" by simp
    show "\<bar>- (5094198575227463 / 70368744177664) :: real\<bar> < 2 ^ 53 * (1 / 2 ^ 46)" by simp
    show "roundEven (- (5094198575227463 / 70368744177664) / (1 / 2 ^ 46)) = -5094198575227463"
      by (simp add: roundEven_def Let_def)
  qed
  then show ?thesis by simp
qed

lemma dbl_15: "double (230) = 230"
proof -
  have "double (230) = of_int (8092405580431360) * (1 / 2 ^ 45)"
  proof (rule double_eqI [where k = "-45"])
    show "(1 / 2 ^ 45 :: real) = 2 powr of_int (-45)" by (simp add: powr_minus_divide)
    show "2 ^ 52 * (1 / 2 ^ 45) \<le> \<bar>230 :: real\<bar>" by simp
    show "\<bar>230 :: real\<bar> < 2 ^ 53 * (1 / 2 ^ 45)" by simp
    show "roundEven (230 / (1 / 2 ^ 45)) = 8092405580431360"
      by (simp add: roundEven_def Let_def)
  qed
  then show ?thesis by simp
qed

lemma dbl_16: "double (662929865148937025 / 576460752303423488) = 5179139571476071 / 4503599627370496"
proof -
  have "double (662929865148937025 / 576460752303423488) = of_int (5179139571476071) * (1 / 2 ^ 52)"
  proof (rule double_eqI [where k = "-52"])
    show "(1 / 2 ^ 52 :: real) = 2 powr of_int (-52)" by (simp add: powr_minus_divide)
    show "2 ^ 52 * (1 / 2 ^ 52) \<le> \<bar>662929865148937025 / 576460752303423488 :: real\<bar>" by simp
    show "\<bar>662929865148937025 / 576460752303423488 :: real\<bar> < 2 ^ 53 * (1 / 2 ^ 52)" by simp
    show "roundEven (662929865148937025 / 576460752303423488 / (1 / 2 ^ 52)) = 5179139571476071"
      by (simp add: roundEven_def Let_def)
  qed
  then show ?thesis by simp
qed

lemma dbl_17: "double (5971141387315052588862323258137 / 324518553658426726783156020576256) = 5303438921191497 / 288230376151711744"
proof -
  have "double (5971141387315052588862323258137 / 324518553658426726783156020576256) = of_int (5303438921191497) * (1 / 2 ^ 58)"
  proof (rule double_eqI [where k = "-58"])
    show "(1 / 2 ^ 58 :: real) = 2 powr of_int (-58)" by (simp add: powr_minus_divide)
    show "2 ^ 52 * (1 / 2 ^ 58) \<le> \<bar>5971141387315052588862323258137 / 324518553658426726783156020576256 :: real\<bar>" by simp
    show "\<bar>5971141387315052588862323258137 / 324518553658426726783156020576256 :: real\<bar> < 2 ^ 53 * (1 / 2 ^ 58)" by simp
    show "roundEven (5971141387315052588862323258137 / 324518553658426726783156020576256 / (1 / 2 ^ 58)) = 5303438921191497"
      by (simp add: roundEven_def Let_def)
  qed
  then show ?thesis by simp
qed

lemma dbl_18: "double (- (20860533925210496951 / 288230376151711744)) = - (2546451895167297 / 35184372088832)"
proof -
  have "double (- (20860533925210496951 / 288230376151711744)) = of_int (-5092903790334594) * (1 / 2 ^ 46)"
  proof (rule double_eqI [where k = "-46"])
    show "(1 / 2 ^ 46 :: real) = 2 powr of_int (-46)" by (simp add: powr_minus_divide)
    show "2 ^ 52 * (1 / 2 ^ 46) \<le> \<bar>- (20860533925210496951 / 288230376151711744) :: real\<bar>" by simp
    show "\<bar>- (20860533925210496951 / 288230376151711744) :: real\<bar> < 2 ^ 53 * (1 / 2 ^ 46)" by simp
    show "roundEven (- (20860533925210496951 / 288230376151711744) / (1 / 2 ^ 46)) = -5092903790334594"
      by (simp add: roundEven_def Let_def)
  qed
  then show ?thesis by simp
qed

lemma dbl_19: "double (- (21101487643393892004918906499761 / 316912650057057350374175801344)) = - (4685471487107827 / 70368744177664)"
proof -
  have "double (- (21101487643393892004918906499761 / 316912650057057350374175801344)) = of_int (-4685471487107827) * (1 / 2 ^ 46)"
  proof (rule double_eqI [where k = "-46"])
    show "(1 / 2 ^ 46 :: real) = 2 powr of_int (-46)" by (simp add: powr_minus_divide)
    show "2 ^ 52 * (1 / 2 ^ 46) \<le> \<bar>- (21101487643393892004918906499761 / 316912650057057350374175801344) :: real\<bar>" by simp
    show "\<bar>- (21101487643393892004918906499761 / 316912650057057350374175801344) :: real\<bar> < 2 ^ 53 * (1 / 2 ^ 46)" by simp
    show "roundEven (- (21101487643393892004918906499761 / 316912650057057350374175801344) / (1 / 2 ^ 46)) = -4685471487107827"
      by (simp add: roundEven_def Let_def)
  qed
  then show ?thesis by simp
qed

lemma dbl_20: "double (21953643056500431837069124661929 / 4951760157141521099596496896) = 4874687999145795 / 1099511627776"
proof -
  have "double (21953643056500431837069124661929 / 4951760157141521099596496896) = of_int (4874687999145795) * (1 / 2 ^ 40)"
  proof (rule double_eqI [where k = "-40"])
    show "(1 / 2 ^ 40 :: real) = 2 powr of_int (-40)" by (simp add: powr_minus_divide)
    show "2 ^ 52 * (1 / 2 ^ 40) \<le> \<bar>21953643056500431837069124661929 / 4951760157141521099596496896 :: real\<bar>" by simp
    show "\<bar>21953643056500431837069124661929 / 4951760157141521099596496896 :: real\<bar> < 2 ^ 53 * (1 / 2 ^ 40)" by simp
    show "roundEven (21953643056500431837069124661929 / 4951760157141521099596496896 / (1 / 2 ^ 40)) = 4874687999145795"
      by (simp add: roundEven_def Let_def)
  qed
  then show ?thesis by simp
qed

lemma dbl_21: "double (4874687999145795 / 1099511627776) = 4874687999145795 / 1099511627776"
proof -
  have "double (4874687999145795 / 1099511627776) = of_int (4874687999145795) * (1 / 2 ^ 40)"
  proof (rule double_eqI [where k = "-40"])
    show "(1 / 2 ^ 40 :: real) = 2 powr of_int (-40)" by (simp add: powr_minus_divide)
    show "2 ^ 52 * (1 / 2 ^ 40) \<le> \<bar>4874687999145795 / 1099511627776 :: real\<bar>" by simp
    show "\<bar>4874687999145795 / 1099511627776 :: real\<bar> < 2 ^ 53 * (1 / 2 ^ 40)" by simp
    show "roundEven (4874687999145795 / 1099511627776 / (1 / 2 ^ 40)) = 4874687999145795"
      by (simp add: roundEven_def Let_def)
  qed
  then show ?thesis by simp
qed

lemma dbl_22: "double (sqrt (4874687999145795 / 1099511627776)) = 4685471487107827 / 70368744177664"
proof -
  have "double (sqrt (4874687999145795 / 1099511627776)) = of_int (4685471487107827) * (1 / 2 ^ 46)"
  proof (rule double_sqrt_eqI [where k = "-46"])
    show "(1 / 2 ^ 46 :: real) = 2 powr of_int (-46)" by (simp add: powr_minus_divide)
    show "(2 ^ 52 * (1 / 2 ^ 46))\<^sup>2 \<le> (4874687999145795 / 1099511627776 :: real)" by (simp add: power2_eq_square)
    show "(4874687999145795 / 1099511627776 :: real) < (2 ^ 53 * (1 / 2 ^ 46))\<^sup>2" by (simp add: power2_eq_square)
    show "((of_int (4685471487107827) - 1 / 2) * (1 / 2 ^ 46))\<^sup>2 < (4874687999145795 / 1099511627776 :: real)" by (simp add: power2_eq_square)
    show "(4874687999145795 / 1099511627776 :: real) < ((of_int (4685471487107827) + 1 / 2) * (1 / 2 ^ 46))\<^sup>2" by (simp add: power2_eq_square)
    show "1 \<le> (4685471487107827 :: int)" by simp
  qed
  then show ?thesis by simp
qed

lemma dbl_23: "double (2462906046218240 / 4685471487107827) = 4734611141063059 / 9007199254740992"
proof -
  have "double (2462906046218240 / 4685471487107827) = of_int (4734611141063059) * (1 / 2 ^ 53)"
  proof (rule double_eqI [where k = "-53"])
    show "(1 / 2 ^ 53 :: real) = 2 powr of_int (-53)" by (simp add: powr_minus_divide)
    show "2 ^ 52 * (1 / 2 ^ 53) \<le> \<bar>2462906046218240 / 4685471487107827 :: real\<bar>" by simp
    show "\<bar>2462906046218240 / 4685471487107827 :: real\<bar> < 2 ^ 53 * (1 / 2 ^ 53)" by simp
    show "roundEven (2462906046218240 / 4685471487107827 / (1 / 2 ^ 53)) = 4734611141063059"
      by (simp add: roundEven_def Let_def)
  qed
  then show ?thesis by simp
qed

lemma dbl_24: "double (- (22183885503994016729006139462793 / 633825300114114700748351602688)) = - 35"
proof -
  have "double (- (22183885503994016729006139462793 / 633825300114114700748351602688)) = of_int (-4925812092436480) * (1 / 2 ^ 47)"
  proof (rule double_eqI [where k = "-47"])
    show "(1 / 2 ^ 47 :: real) = 2 powr of_int (-47)" by (simp add: powr_minus_divide)
    show "2 ^ 52 * (1 / 2 ^ 47) \<le> \<bar>- (22183885503994016729006139462793 / 633825300114114700748351602688) :: real\<bar>" by simp
    show "\<bar>- (22183885503994016729006139462793 / 633825300114114700748351602688) :: real\<bar> < 2 ^ 53 * (1 / 2 ^ 47)" by simp
    show "roundEven (- (22183885503994016729006139462793 / 633825300114114700748351602688) / (1 / 2 ^ 47)) = -4925812092436480"
      by (simp add: roundEven_def Let_def)
  qed
  then show ?thesis by simp
qed

lemma dbl_25: "double (215) = 215"
proof -
  have "double (215) = of_int (7564639999098880) * (1 / 2 ^ 45)"
  proof (rule double_eqI [where k = "-45"])
    show "(1 / 2 ^ 45 :: real) = 2 powr of_int (-45)" by (simp add: powr_minus_divide)
    show "2 ^ 52 * (1 / 2 ^ 45) \<le> \<bar>215 :: real\<bar>" by simp
    show "\<bar>215 :: real\<bar> < 2 ^ 53 * (1 / 2 ^ 45)" by simp
    show "roundEven (215 / (1 / 2 ^ 45)) = 7564639999098880"
      by (simp add: roundEven_def Let_def)
  qed
  then show ?thesis by simp
qed

lemma dbl_26: "double (270) = 270"
proof -
  have "double (270) = of_int (4749890231992320) * (1 / 2 ^ 44)"
  proof (rule double_eqI [where k = "-44"])
    show "(1 / 2 ^ 44 :: real) = 2 powr of_int (-44)" by (simp add: powr_minus_divide)
    show "2 ^ 52 * (1 / 2 ^ 44) \<le> \<bar>270 :: real\<bar>" by simp
    show "\<bar>270 :: real\<bar> < 2 ^ 53 * (1 / 2 ^ 44)" by simp
    show "roundEven (270 / (1 / 2 ^ 44)) = 4749890231992320"
      by (simp add: roundEven_def Let_def)
  qed
  then show ?thesis by simp
qed

lemma dbl_27: "double (3671 / 16) = 3671 / 16"
proof -
  have "double (3671 / 16) = of_int (8072614371131392) * (1 / 2 ^ 45)"
  proof (rule double_eqI [where k = "-45"])
    show "(1 / 2 ^ 45 :: real) = 2 powr of_int (-45)" by (simp add: powr_minus_divide)
    show "2 ^ 52 * (1 / 2 ^ 45) \<le> \<bar>3671 / 16 :: real\<bar>" by simp
    show "\<bar>3671 / 16 :: real\<bar> < 2 ^ 53 * (1 / 2 ^ 45)" by simp
    show "roundEven (3671 / 16 / (1 / 2 ^ 45)) = 8072614371131392"
      by (simp add: roundEven_def Let_def)
  qed
  then show ?thesis by simp
qed

lemma dbl_28: "double (21161874217058676685 / 18446744073709551616) = 5166473197524091 / 4503599627370496"
proof -
  have "double (21161874217058676685 / 18446744073709551616) = of_int (5166473197524091) * (1 / 2 ^ 52)"
  proof (rule double_eqI [where k = "-52"])
    show "(1 / 2 ^ 52 :: real) = 2 powr of_int (-52)" by (simp add: powr_minus_divide)
    show "2 ^ 52 * (1 / 2 ^ 52) \<le> \<bar>21161874217058676685 / 18446744073709551616 :: real\<bar>" by simp
    show "\<bar>21161874217058676685 / 18446744073709551616 :: real\<bar> < 2 ^ 53 * (1 / 2 ^ 52)" by simp
    show "roundEven (21161874217058676685 / 18446744073709551616 / (1 / 2 ^ 52)) = 5166473197524091"
      by (simp add: roundEven_def Let_def)
  qed
  then show ?thesis by simp
qed

lemma dbl_29: "double (5956538052400422832450766051077 / 324518553658426726783156020576256) = 5290468554264669 / 288230376151711744"
proof -
  have "double (5956538052400422832450766051077 / 324518553658426726783156020576256) = of_int (5290468554264669) * (1 / 2 ^ 58)"
  proof (rule double_eqI [where k = "-58"])
    show "(1 / 2 ^ 58 :: real) = 2 powr of_int (-58)" by (simp add: powr_minus_divide)
    show "2 ^ 52 * (1 / 2 ^ 58) \<le> \<bar>5956538052400422832450766051077 / 324518553658426726783156020576256 :: real\<bar>" by simp
    show "\<bar>5956538052400422832450766051077 / 324518553658426726783156020576256 :: real\<bar> < 2 ^ 53 * (1 / 2 ^ 58)" by simp
    show "roundEven (5956538052400422832450766051077 / 324518553658426726783156020576256 / (1 / 2 ^ 58)) = 5290468554264669"
      by (simp add: roundEven_def Let_def)
  qed
  then show ?thesis by simp
qed

lemma dbl_30: "double (20871127832685953117 / 288230376151711744) = 1273872548381711 / 17592186044416"
proof -
  have "double (20871127832685953117 / 288230376151711744) = of_int (5095490193526844) * (1 / 2 ^ 46)"
  proof (rule double_eqI [where k = "-46"])
    show "(1 / 2 ^ 46 :: real) = 2 powr of_int (-46)" by (simp add: powr_minus_divide)
    show "2 ^ 52 * (1 / 2 ^ 46) \<le> \<bar>20871127832685953117 / 288230376151711744 :: real\<bar>" by simp
    show "\<bar>20871127832685953117 / 288230376151711744 :: real\<bar> < 2 ^ 53 * (1 / 2 ^ 46)" by simp
    show "roundEven (20871127832685953117 / 288230376151711744 / (1 / 2 ^ 46)) = 5095490193526844"
      by (simp add: roundEven_def Let_def)
  qed
  then show ?thesis by simp
qed

lemma dbl_31: "double (10556101958945255604903047830943 / 158456325028528675187087900672) = 4687850978044697 / 70368744177664"
proof -
  have "double (10556101958945255604903047830943 / 158456325028528675187087900672) = of_int (4687850978044697) * (1 / 2 ^ 46)"
  proof (rule double_eqI [where k = "-46"])
    show "(1 / 2 ^ 46 :: real) = 2 powr of_int (-46)" by (simp add: powr_minus_divide)
    show "2 ^ 52 * (1 / 2 ^ 46) \<le> \<bar>10556101958945255604903047830943 / 158456325028528675187087900672 :: real\<bar>" by simp
    show "\<bar>10556101958945255604903047830943 / 158456325028528675187087900672 :: real\<bar> < 2 ^ 53 * (1 / 2 ^ 46)" by simp
    show "roundEven (10556101958945255604903047830943 / 158456325028528675187087900672 / (1 / 2 ^ 46)) = 4687850978044697"
      by (simp add: roundEven_def Let_def)
  qed
  then show ?thesis by simp
qed

lemma dbl_32: "double (21975946792354622234329329821809 / 4951760157141521099596496896) = 4879640423361891 / 1099511627776"
proof -
  have "double (21975946792354622234329329821809 / 4951760157141521099596496896) = of_int (4879640423361891) * (1 / 2 ^ 40)"
  proof (rule double_eqI [where k = "-40"])
    show "(1 / 2 ^ 40 :: real) = 2 powr of_int (-40)" by (simp add: powr_minus_divide)
    show "2 ^ 52 * (1 / 2 ^ 40) \<le> \<bar>21975946792354622234329329821809 / 4951760157141521099596496896 :: real\<bar>" by simp
    show "\<bar>21975946792354622234329329821809 / 4951760157141521099596496896 :: real\<bar> < 2 ^ 53 * (1 / 2 ^ 40)" by simp
    show "roundEven (21975946792354622234329329821809 / 4951760157141521099596496896 / (1 / 2 ^ 40)) = 4879640423361891"
      by (simp add: roundEven_def Let_def)
  qed
  then show ?thesis by simp
qed

lemma dbl_33: "double (4879640423361891 / 1099511627776) = 4879640423361891 / 1099511627776"
proof -
  have "double (4879640423361891 / 1099511627776) = of_int (4879640423361891) * (1 / 2 ^ 40)"
  proof (rule double_eqI [where k = "-40"])
    show "(1 / 2 ^ 40 :: real) = 2 powr of_int (-40)" by (simp add: powr_minus_divide)
    show "2 ^ 52 * (1 / 2 ^ 40) \<le> \<bar>4879640423361891 / 1099511627776 :: real\<bar>" by simp
    show "\<bar>4879640423361891 / 1099511627776 :: real\<bar> < 2 ^ 53 * (1 / 2 ^ 40)" by simp
    show "roundEven (4879640423361891 / 1099511627776 / (1 / 2 ^ 40)) = 4879640423361891"
      by (simp add: roundEven_def Let_def)
  qed
  then show ?thesis by simp
qed

lemma dbl_34: "double (sqrt (4879640423361891 / 1099511627776)) = 4687850978044697 / 70368744177664"
proof -
  have "double (sqrt (4879640423361891 / 1099511627776)) = of_int (4687850978044697) * (1 / 2 ^ 46)"
  proof (rule double_sqrt_eqI [where k = "-46"])
    show "(1 / 2 ^ 46 :: real) = 2 powr of_int (-46)" by (simp add: powr_minus_divide)
    show "(2 ^ 52 * (1 / 2 ^ 46))\<^sup>2 \<le> (4879640423361891 / 1099511627776 :: real)" by (simp add: power2_eq_square)
    show "(4879640423361891 / 1099511627776 :: real) < (2 ^ 53 * (1 / 2 ^ 46))\<^sup>2" by (simp add: power2_eq_square)
    show "((of_int (4687850978044697) - 1 / 2) * (1 / 2 ^ 46))\<^sup>2 < (4879640423361891 / 1099511627776 :: real)" by (simp add: power2_eq_square)
    show "(4879640423361891 / 1099511627776 :: real) < ((of_int (4687850978044697) + 1 / 2) * (1 / 2 ^ 46))\<^sup>2" by (simp add: power2_eq_square)
    show "1 \<le> (4687850978044697 :: int)" by simp
  qed
  then show ?thesis by simp
qed

lemma dbl_35: "double (2462906046218240 / 4687850978044697) = 2366103957644033 / 4503599627370496"
proof -
  have "double (2462906046218240 / 4687850978044697) = of_int (4732207915288066) * (1 / 2 ^ 53)"
  proof (rule double_eqI [where k = "-53"])
    show "(1 / 2 ^ 53 :: real) = 2 powr of_int (-53)" by (simp add: powr_minus_divide)
    show "2 ^ 52 * (1 / 2 ^ 53) \<le> \<bar>2462906046218240 / 4687850978044697 :: real\<bar>" by simp
    show "\<bar>2462906046218240 / 4687850978044697 :: real\<bar> < 2 ^ 53 * (1 / 2 ^ 53)" by simp
    show "roundEven (2462906046218240 / 4687850978044697 / (1 / 2 ^ 53)) = 4732207915288066"
      by (simp add: roundEven_def Let_def)
  qed
  then show ?thesis by simp
qed

lemma dbl_36: "double (11091942751997008423509089343001 / 316912650057057350374175801344) = 4925812092436481 / 140737488355328"
proof -
  have "double (11091942751997008423509089343001 / 316912650057057350374175801344) = of_int (4925812092436481) * (1 / 2 ^ 47)"
  proof (rule double_eqI [where k = "-47"])
    show "(1 / 2 ^ 47 :: real) = 2 powr of_int (-47)" by (simp add: powr_minus_divide)
    show "2 ^ 52 * (1 / 2 ^ 47) \<le> \<bar>11091942751997008423509089343001 / 316912650057057350374175801344 :: real\<bar>" by simp
    show "\<bar>11091942751997008423509089343001 / 316912650057057350374175801344 :: real\<bar> < 2 ^ 53 * (1 / 2 ^ 47)" by simp
    show "roundEven (11091942751997008423509089343001 / 316912650057057350374175801344 / (1 / 2 ^ 47)) = 4925812092436481"
      by (simp add: roundEven_def Let_def)
  qed
  then show ?thesis by simp
qed

lemma dbl_37: "double (40189349018468353 / 140737488355328) = 4569 / 16"
proof -
  have "double (40189349018468353 / 140737488355328) = of_int (5023668627308544) * (1 / 2 ^ 44)"
  proof (rule double_eqI [where k = "-44"])
    show "(1 / 2 ^ 44 :: real) = 2 powr of_int (-44)" by (simp add: powr_minus_divide)
    show "2 ^ 52 * (1 / 2 ^ 44) \<le> \<bar>40189349018468353 / 140737488355328 :: real\<bar>" by simp
    show "\<bar>40189349018468353 / 140737488355328 :: real\<bar> < 2 ^ 53 * (1 / 2 ^ 44)" by simp
    show "roundEven (40189349018468353 / 140737488355328 / (1 / 2 ^ 44)) = 5023668627308544"
      by (simp add: roundEven_def Let_def)
  qed
  then show ?thesis by simp
qed

lemmas close_pair_doubles = dbl_0 dbl_1 dbl_2 dbl_3 dbl_4 dbl_5 dbl_6 dbl_7 dbl_8 dbl_9 dbl_10 dbl_11 dbl_12 dbl_13 dbl_14 dbl_15 dbl_16 dbl_17 dbl_18 dbl_19 dbl_20 dbl_21 dbl_22 dbl_23 dbl_24 dbl_25 dbl_26 dbl_27 dbl_28 dbl_29 dbl_30 dbl_31 dbl_32 dbl_33 dbl_34 dbl_35 dbl_36 dbl_37

text \<open>
  Claim C3 fails by rounding.  Two nodes at rest, \<open>0.5625\<close> apart on the centre line, repel
  each other so strongly that phase 3 clamps both speeds.  In doubles the clamped velocity
  of \<open>b\<close> is \<open>35 + 2\<^sup>-\<^sup>4\<^sup>7\<close>, one unit in the last place above \<open>MAX_VELOCITY\<close>.
\<close>

theorem velocity_exceeds_maximum:
  "tickD [] None
     [\<lparr>node_id = StrId ''a'', label = None, properties = None :: unit option,
       x = 250, y = 270, vx = 0, vy = 0\<rparr>,
      \<lparr>node_id = StrId ''b'', label = None, properties = None,
       x = 250.5625, y = 270, vx = 0, vy = 0\<rparr>]
   = Some [\<lparr>node_id = StrId ''a'', label = None, properties = None,
            x = 215, y = 270, vx = - 35, vy = 0\<rparr>,
           \<lparr>node_id = StrId ''b'', label = None, properties = None,
            x = 285.5625, y = 270, vx = 4925812092436481 / 140737488355328, vy = 0\<rparr>]
   \<and> \<not> sqrt ((4925812092436481 / 140737488355328)\<^sup>2 + 0\<^sup>2) \<le> MAX_VELOCITY"
  apply (simp add: tickD_def repelAllD_def repelD_def Let_def sim_consts close_pair_doubles)
  apply (simp add: centerD_def Let_def sim_consts close_pair_doubles)
  done

text \<open>
  Claim C3, amended.  In double arithmetic, if every node's speed \<open>sqrt (vx\<^sup>2 + vy\<^sup>2)\<close> is at
  most \<open>MAX_VELOCITY\<close> at the start, then after any number of ticks every node's speed is at
  most \<open>MAX_VELOCITY * (1 + 2\<^sup>-\<^sup>5\<^sup>0)\<close>, the pinned node included: the clamp holds up to the
  rounding of its own scaling.
\<close>

theorem velocity_bounded_up_to_rounding:
  fixes ns :: "'p SimNode list"
  assumes "linksInRange L (length ns)"
    and "\<forall>n\<in>set ns. sqrt ((vx n)\<^sup>2 + (vy n)\<^sup>2) \<le> MAX_VELOCITY"
  shows "\<exists>ns'. ticksD k L d ns = Some ns' \<and>
           (\<forall>n\<in>set ns'. sqrt ((vx n)\<^sup>2 + (vy n)\<^sup>2) \<le> MAX_VELOCITY * (1 + 1 / 2 ^ 50))"
proof -
  have gen: "\<exists>ns'. ticksD k L d ms = Some ns' \<and>
           (\<forall>n\<in>set ns'. sqrt ((vx n)\<^sup>2 + (vy n)\<^sup>2) \<le> MAX_VELOCITY * (1 + 1 / 2 ^ 50))"
    if "linksInRange L (length ms)"
      and "\<forall>n\<in>set ms. sqrt ((vx n)\<^sup>2 + (vy n)\<^sup>2) \<le> MAX_VELOCITY * (1 + 1 / 2 ^ 50)"
    for ms :: "'p SimNode list"
    using that
  proof (induction k arbitrary: ms)
    case 0
    then show ?case by simp
  next
    case (Suc k)
    from tickD_total [OF Suc.prems(1), of d] obtain m where
      m: "tickD L d ms = Some m" "length m = length ms" by blast
    from Suc.prems(1) m(2) have r: "linksInRange L (length m)" by simp
    from tickD_speed [OF Suc.prems(1) m(1) Suc.prems(2)] Suc.IH [OF r] m(1) show ?case by simp
  qed
  have "MAX_VELOCITY \<le> MAX_VELOCITY * (1 + 1 / 2 ^ 50)" by (simp add: MAX_VELOCITY_def)
  with assms(2) have "\<forall>n\<in>set ns. sqrt ((vx n)\<^sup>2 + (vy n)\<^sup>2) \<le> MAX_VELOCITY * (1 + 1 / 2 ^ 50)"
    by fastforce
  with assms(1) show ?thesis by (rule gen)
qed

text \<open>Three ticks of a linked close pair whose pinned node moves at the maximal speed.\<close>

theorem velocity_bounded_up_to_rounding_witness:
  "linksInRange [(0, 1)]
     (length [\<lparr>node_id = StrId ''a'', label = None, properties = None :: unit option,
               x = 250, y = 270, vx = 0, vy = 0\<rparr>,
              \<lparr>node_id = StrId ''b'', label = None, properties = None,
               x = 250.5625, y = 270, vx = 21, vy = 28\<rparr>])
   \<and> sqrt (0\<^sup>2 + 0\<^sup>2) \<le> MAX_VELOCITY \<and> sqrt (21\<^sup>2 + 28\<^sup>2) \<le> MAX_VELOCITY
   \<and> (\<exists>ns'. ticksD 3 [(0, 1)] (Some (StrId ''b''))
               [\<lparr>node_id = StrId ''a'', label = None, properties = None :: unit option,
                 x = 250, y = 270, vx = 0, vy = 0\<rparr>,
                \<lparr>node_id = StrId ''b'', label = None, properties = None,
                 x = 250.5625, y = 270, vx = 21, vy = 28\<rparr>] = Some ns'
            \<and> sqrt ((vx (ns' ! 0))\<^sup>2 + (vy (ns' ! 0))\<^sup>2) \<le> MAX_VELOCITY * (1 + 1 / 2 ^ 50)
            \<and> sqrt ((vx (ns' ! 1))\<^sup>2 + (vy (ns' ! 1))\<^sup>2) \<le> MAX_VELOCITY * (1 + 1 / 2 ^ 50))"
proof -
  let ?ns = "[\<lparr>node_id = StrId ''a'', label = None, properties = None :: unit option,
               x = 250, y = 270, vx = 0, vy = 0\<rparr>,
              \<lparr>node_id = StrId ''b'', label = None, properties = None,
               x = 250.5625, y = 270, vx = 21, vy = 28\<rparr>]"
  have h: "linksInRange [(0, 1)] (length ?ns)"
    by (simp add: linksInRange_def)
  have "sqrt ((21::real)\<^sup>2 + 28\<^sup>2) = sqrt (35\<^sup>2)" by simp
  then have s: "sqrt ((21::real)\<^sup>2 + 28\<^sup>2) = 35" by (simp del: real_sqrt_eq_iff)
  have v: "\<forall>n\<in>set ?ns. sqrt ((vx n)\<^sup>2 + (vy n)\<^sup>2) \<le> MAX_VELOCITY"
    using s by (simp add: MAX_VELOCITY_def)
  from velocity_bounded_up_to_rounding [OF h v, of 3 "Some (StrId ''b'')"] obtain ns' where
    t: "ticksD 3 [(0, 1)] (Some (StrId ''b'')) ?ns = Some ns'"
    and b: "\<forall>n\<in>set ns'. sqrt ((vx n)\<^sup>2 + (vy n)\<^sup>2) \<le> MAX_VELOCITY * (1 + 1 / 2 ^ 50)"
    by blast
  have "length ns' = 2" using ticksD_length [OF t] by simp
  then have "ns' ! 0 \<in> set ns'" "ns' ! 1 \<in> set ns'" by simp_all
  with b have "sqrt ((vx (ns' ! 0))\<^sup>2 + (vy (ns' ! 0))\<^sup>2) \<le> MAX_VELOCITY * (1 + 1 / 2 ^ 50)"
    "sqrt ((vx (ns' ! 1))\<^sup>2 + (vy (ns' ! 1))\<^sup>2) \<le> MAX_VELOCITY * (1 + 1 / 2 ^ 50)" by blast+
  with t h s show ?thesis by (simp add: MAX_VELOCITY_def)
qed

section \<open>Decay after release\<close>

lemma repelAll_single: "repelAll d [n] = [n]"
  by (simp add: repelAll_def)


lemma tick_single: "tick [] d [n] = Some [center d n]"
  by (simp add: tick_def repelAll_single)










lemma double_sub_abs: "\<bar>double (c - p)\<bar> \<le> (1 + 1 / 2 ^ 53) * \<bar>c - p\<bar>"
  using double_upper [of "c - p"] by (simp add: mult.commute)





section \<open>Id comparisons\<close>

lemma index_entries:
  "map (\<lambda>(index, node). (String (node_id node), index)) (enumerate 0 gs)
   = zip (map (\<lambda>n. String (node_id n)) gs) [0 ..< length gs]"
  by (rule nth_equalityI) (simp_all add: nth_enumerate_eq)

lemma indexById_strings:
  assumes "map (\<lambda>n. String (node_id n)) gs = map (\<lambda>n. String (node_id n)) gs'"
  shows "indexById gs = indexById gs'"
proof -
  from assms have "length gs = length gs'" by (metis length_map)
  with assms show ?thesis by (simp add: indexById_def index_entries)
qed

lemma simLinks_strings:
  "simLinks data =
     map (\<lambda>p. (the (indexById (nodes data) (fst p)), the (indexById (nodes data) (snd p))))
       (filter (\<lambda>p. fst p \<in> dom (indexById (nodes data)) \<and>
                     snd p \<in> dom (indexById (nodes data)) \<and>
                     indexById (nodes data) (fst p) \<noteq> indexById (nodes data) (snd p))
               (map (\<lambda>l. (String (source l), String (target l))) (links data)))"
  by (simp add: simLinks_filter filter_map comp_def)

lemma resolved_strings:
  "map (\<lambda>r. (String (node_id (source_node r)), String (node_id (target_node r))))
       (resolveLinks (Some data) (createNodeMap ns))
   = filter (\<lambda>p. fst p \<in> dom (createNodeMap ns) \<and> snd p \<in> dom (createNodeMap ns))
       (map (\<lambda>l. (String (source l), String (target l))) (links data))"
proof -
  have k: "String (node_id (the (createNodeMap ns k))) = k" if "k \<in> dom (createNodeMap ns)" for k
    using that createNodeMap_Some [of ns k] by auto
  have "map (\<lambda>r. (String (node_id (source_node r)), String (node_id (target_node r))))
         (map (\<lambda>l. \<lparr>link = l, source_node = the (createNodeMap ns (String (source l))),
                target_node = the (createNodeMap ns (String (target l)))\<rparr>)
         (filter (\<lambda>l. String (source l) \<in> dom (createNodeMap ns) \<and>
                       String (target l) \<in> dom (createNodeMap ns)) ls))
      = filter (\<lambda>p. fst p \<in> dom (createNodeMap ns) \<and> snd p \<in> dom (createNodeMap ns))
         (map (\<lambda>l. (String (source l), String (target l))) ls)" for ls
    by (induction ls) (simp_all add: k)
  then show ?thesis by (simp add: resolveLinks_filter)
qed

text \<open>
  Claim C7 fails for the pinned check.  The ids \<open>1\<close> and \<open>"1"\<close> have the same string
  coercion, but the tick pins the node with id \<open>1\<close> only when the dragged id is the number
  \<open>1\<close>: with the dragged id \<open>"1"\<close> the node is moved as a free node.
\<close>

theorem pinned_check_is_strict:
  "String (NumId 1) = String (StrId ''1'')
   \<and> tick [] (Some (NumId 1))
       [\<lparr>node_id = NumId 1, label = None, properties = None :: unit option,
         x = 100, y = 100, vx = 10, vy = 0\<rparr>]
     = Some [\<lparr>node_id = NumId 1, label = None, properties = None,
              x = 100, y = 100, vx = 9.2, vy = 0\<rparr>]
   \<and> tick [] (Some (StrId ''1''))
       [\<lparr>node_id = NumId 1, label = None, properties = None :: unit option,
         x = 100, y = 100, vx = 10, vy = 0\<rparr>]
     = Some [\<lparr>node_id = NumId 1, label = None, properties = None,
              x = 109.227968, y = 100.012512, vx = 9.227968, vy = 0.012512\<rparr>]
   \<and> tick [] (Some (NumId 1))
       [\<lparr>node_id = NumId 1, label = None, properties = None :: unit option,
         x = 100, y = 100, vx = 10, vy = 0\<rparr>]
     \<noteq> tick [] (Some (StrId ''1''))
       [\<lparr>node_id = NumId 1, label = None, properties = None :: unit option,
         x = 100, y = 100, vx = 10, vy = 0\<rparr>]"
  by (simp add: tick_single center_def Let_def sim_consts showNat.simps)

text \<open>
  Claim C7, amended.  Node-map lookup and link endpoint resolution depend on ids only
  through their string coercion: data whose node ids and link endpoints have the same
  string coercions give the same index map, the same index pairs, the same node-map keys
  and resolved links with the same string-coerced endpoints.  The per-tick pinned check is
  strict equality with the dragged id: a node with that very id keeps its position and is
  only damped, and every other node is moved and clamped as a free node.
\<close>

theorem ids_by_string_coercion:
  assumes "map (\<lambda>n. String (node_id n)) (nodes data) = map (\<lambda>n. String (node_id n)) (nodes data')"
    and "map (\<lambda>l. (String (source l), String (target l))) (links data)
         = map (\<lambda>l. (String (source l), String (target l))) (links data')"
    and "map (\<lambda>n. String (node_id n)) ns = map (\<lambda>n. String (node_id n)) ns'"
    and "linksInRange L (length ms)"
  shows "indexById (nodes data) = indexById (nodes data') \<and>
         simLinks data = simLinks data' \<and>
         dom (createNodeMap ns) = dom (createNodeMap ns') \<and>
         map (\<lambda>r. (String (node_id (source_node r)), String (node_id (target_node r))))
             (resolveLinks (Some data) (createNodeMap ns))
         = map (\<lambda>r. (String (node_id (source_node r)), String (node_id (target_node r))))
             (resolveLinks (Some data') (createNodeMap ns')) \<and>
         (\<exists>ms'. tick L (Some g) ms = Some ms' \<and>
            (\<forall>i<length ms.
               (node_id (ms ! i) = g \<longrightarrow>
                  x (ms' ! i) = x (ms ! i) \<and> y (ms' ! i) = y (ms ! i) \<and>
                  vx (ms' ! i) = vx (ms ! i) * DAMPING \<and> vy (ms' ! i) = vy (ms ! i) * DAMPING) \<and>
               (node_id (ms ! i) \<noteq> g \<longrightarrow>
                  BOUNDS_MARGIN \<le> x (ms' ! i) \<and> x (ms' ! i) \<le> WIDTH - BOUNDS_MARGIN \<and>
                  BOUNDS_MARGIN \<le> y (ms' ! i) \<and> y (ms' ! i) \<le> HEIGHT - BOUNDS_MARGIN)))"
proof (intro conjI)
  show ix: "indexById (nodes data) = indexById (nodes data')"
    by (rule indexById_strings) (rule assms(1))
  show "simLinks data = simLinks data'"
    by (simp only: simLinks_strings ix assms(2))
  have "set (map (\<lambda>n. String (node_id n)) ns) = set (map (\<lambda>n. String (node_id n)) ns')"
    by (simp only: assms(3))
  then show d: "dom (createNodeMap ns) = dom (createNodeMap ns')"
    by (simp add: dom_createNodeMap)
  show "map (\<lambda>r. (String (node_id (source_node r)), String (node_id (target_node r))))
             (resolveLinks (Some data) (createNodeMap ns))
         = map (\<lambda>r. (String (node_id (source_node r)), String (node_id (target_node r))))
             (resolveLinks (Some data') (createNodeMap ns'))"
    by (simp only: resolved_strings d assms(2))
  from tick_total [OF assms(4), of "Some g"] obtain ms' where
    t: "tick L (Some g) ms = Some ms'" by blast
  have "(node_id (ms ! i) = g \<longrightarrow>
                  x (ms' ! i) = x (ms ! i) \<and> y (ms' ! i) = y (ms ! i) \<and>
                  vx (ms' ! i) = vx (ms ! i) * DAMPING \<and> vy (ms' ! i) = vy (ms ! i) * DAMPING) \<and>
               (node_id (ms ! i) \<noteq> g \<longrightarrow>
                  BOUNDS_MARGIN \<le> x (ms' ! i) \<and> x (ms' ! i) \<le> WIDTH - BOUNDS_MARGIN \<and>
                  BOUNDS_MARGIN \<le> y (ms' ! i) \<and> y (ms' ! i) \<le> HEIGHT - BOUNDS_MARGIN)"
    if i: "i < length ms" for i
    using tick_nth(2) [OF t i] tick_nth(3) [OF t i] by simp
  with t show "\<exists>ms'. tick L (Some g) ms = Some ms' \<and>
            (\<forall>i<length ms.
               (node_id (ms ! i) = g \<longrightarrow>
                  x (ms' ! i) = x (ms ! i) \<and> y (ms' ! i) = y (ms ! i) \<and>
                  vx (ms' ! i) = vx (ms ! i) * DAMPING \<and> vy (ms' ! i) = vy (ms ! i) * DAMPING) \<and>
               (node_id (ms ! i) \<noteq> g \<longrightarrow>
                  BOUNDS_MARGIN \<le> x (ms' ! i) \<and> x (ms' ! i) \<le> WIDTH - BOUNDS_MARGIN \<and>
                  BOUNDS_MARGIN \<le> y (ms' ! i) \<and> y (ms' ! i) \<le> HEIGHT - BOUNDS_MARGIN))"
    by blast
qed

text \<open>The ids \<open>1\<close> and \<open>"1"\<close> exchanged between a node and a link endpoint.\<close>

theorem ids_by_string_coercion_witness:
  "String (NumId 1) = String (StrId ''1'')
   \<and> simLinks \<lparr>nodes = [\<lparr>node_id = NumId 1, label = None, properties = None :: unit option\<rparr>,
                         \<lparr>node_id = StrId ''b'', label = None, properties = None\<rparr>],
                links = [\<lparr>link_id = NumId 7, source = StrId ''1'', target = StrId ''b'',
                          link_type = None, link_properties = None\<rparr>]\<rparr>
     = simLinks \<lparr>nodes = [\<lparr>node_id = StrId ''1'', label = None, properties = None :: unit option\<rparr>,
                           \<lparr>node_id = StrId ''b'', label = None, properties = None\<rparr>],
                  links = [\<lparr>link_id = NumId 7, source = NumId 1, target = StrId ''b'',
                            link_type = None, link_properties = None\<rparr>]\<rparr>"
proof -
  let ?d = "\<lparr>nodes = [\<lparr>node_id = NumId 1, label = None, properties = None :: unit option\<rparr>,
                         \<lparr>node_id = StrId ''b'', label = None, properties = None\<rparr>],
                links = [\<lparr>link_id = NumId 7, source = StrId ''1'', target = StrId ''b'',
                          link_type = None, link_properties = None\<rparr>]\<rparr>"
  let ?d' = "\<lparr>nodes = [\<lparr>node_id = StrId ''1'', label = None, properties = None :: unit option\<rparr>,
                           \<lparr>node_id = StrId ''b'', label = None, properties = None\<rparr>],
                  links = [\<lparr>link_id = NumId 7, source = NumId 1, target = StrId ''b'',
                            link_type = None, link_properties = None\<rparr>]\<rparr>"
  have s: "String (NumId 1) = String (StrId ''1'')" by (simp add: showNat.simps)
  have h1: "map (\<lambda>n. String (node_id n)) (nodes ?d) = map (\<lambda>n. String (node_id n)) (nodes ?d')"
    using s by simp
  have h2: "map (\<lambda>l. (String (source l), String (target l))) (links ?d)
         = map (\<lambda>l. (String (source l), String (target l))) (links ?d')"
    using s by simp
  have h3: "map (\<lambda>n. String (node_id n)) ([] :: unit SimNode list)
          = map (\<lambda>n. String (node_id n)) ([] :: unit SimNode list)" by simp
  have h4: "linksInRange [] (length ([] :: unit SimNode list))" by (simp add: linksInRange_def)
  from ids_by_string_coercion [OF h1 h2 h3 h4] s show ?thesis by blast
qed

section \<open>The tick, phase by phase\<close>

lemma list_update_other_id: "i \<noteq> j \<Longrightarrow> u[i := a, j := u ! j] = u[i := a]"
  by (metis list_update_id list_update_swap)

lemma repel_impulses:
  assumes "i \<noteq> j" "i < length u" "j < length u"
  shows "repel d i j u =
         applyImpulse d j (softenedRepulsion (u ! i) (u ! j))
           (applyImpulse d i (opposite (softenedRepulsion (u ! i) (u ! j))) u)"
  using assms
  by (simp add: repel_def applyImpulse_def softenedRepulsion_def opposite_def Let_def
      power2_eq_square list_update_other_id)

lemma spring_impulses:
  assumes "s < length u" "t < length u"
  shows "spring d s t u =
         applyImpulse d t (opposite (springImpulse (u ! s) (u ! t)))
           (applyImpulse d s (springImpulse (u ! s) (u ! t)) u)"
  using assms
  by (simp add: spring_def applyImpulse_def springImpulse_def opposite_def Let_def
      power2_eq_square)

lemma map_applyImpulse:
  assumes "\<And>n a b. Some (node_id n) \<noteq> d \<Longrightarrow> f (n\<lparr>vx := a, vy := b\<rparr>) = f n"
  shows "map f (applyImpulse d i v u) = map f u"
  using assms by (simp add: applyImpulse_def map_update map_update_same)

lemma same_at:
  assumes "map f acc = map f prev" "i < length prev"
  shows "f (acc ! i) = f (prev ! i)"
proof -
  from assms(1) have "length acc = length prev" by (metis length_map)
  with assms show ?thesis by (metis nth_map)
qed

lemma softenedRepulsion_pos:
  "x a = x a' \<Longrightarrow> y a = y a' \<Longrightarrow> x b = x b' \<Longrightarrow> y b = y b' \<Longrightarrow>
   softenedRepulsion a b = softenedRepulsion a' b'"
  by (simp add: softenedRepulsion_def)

lemma springImpulse_pos:
  "x a = x a' \<Longrightarrow> y a = y a' \<Longrightarrow> x b = x b' \<Longrightarrow> y b = y b' \<Longrightarrow>
   springImpulse a b = springImpulse a' b'"
  by (simp add: springImpulse_def)

lemma fold_pairs:
  "fold (\<lambda>i. fold (g i) (J i)) is u
   = fold (\<lambda>(i, j). g i j) (concat (map (\<lambda>i. map (Pair i) (J i)) is)) u"
proof (induction "is" arbitrary: u)
  case Nil
  then show ?case by simp
next
  case (Cons i "is")
  have "fold (\<lambda>(i, j). g i j) (map (Pair i) js) v = fold (g i) js v" for js v
    by (induction js arbitrary: v) simp_all
  with Cons show ?case by simp
qed

lemma in_unorderedPairs:
  "(i, j) \<in> set (unorderedPairs n) \<Longrightarrow> i < j \<and> j < n"
  by (auto simp: unorderedPairs_def)

lemma repelAll_pairs:
  "repelAll d ns = fold (\<lambda>(i, j). repel d i j) (unorderedPairs (length ns)) ns"
  unfolding repelAll_def unorderedPairs_def by (rule fold_pairs)

lemma phase1_impulses:
  fixes prev acc :: "'p SimNode list"
  assumes "\<forall>p\<in>set ps. fst p < snd p \<and> snd p < length prev"
    and "map (\<lambda>n. (node_id n, x n, y n)) acc = map (\<lambda>n. (node_id n, x n, y n)) prev"
  shows "fold (\<lambda>(i, j). repel d i j) ps acc
       = fold (\<lambda>(i, j) acc.
                 applyImpulse d j (softenedRepulsion (prev ! i) (prev ! j))
                   (applyImpulse d i (opposite (softenedRepulsion (prev ! i) (prev ! j))) acc))
              ps acc"
  using assms
proof (induction ps arbitrary: acc)
  case Nil
  then show ?case by simp
next
  case (Cons p ps)
  obtain i j where p: "p = (i, j)" by (cases p)
  from Cons.prems(1) p have ij: "i < j" "j < length prev" by auto
  from Cons.prems(2) have len: "length acc = length prev" by (rule map_eq_imp_length_eq)
  have ai: "(node_id (acc ! i), x (acc ! i), y (acc ! i)) = (node_id (prev ! i), x (prev ! i), y (prev ! i))"
    using same_at [OF Cons.prems(2), of i] ij by simp
  have aj: "(node_id (acc ! j), x (acc ! j), y (acc ! j)) = (node_id (prev ! j), x (prev ! j), y (prev ! j))"
    using same_at [OF Cons.prems(2), of j] ij by simp
  have f: "softenedRepulsion (acc ! i) (acc ! j) = softenedRepulsion (prev ! i) (prev ! j)"
    using ai aj by (intro softenedRepulsion_pos) simp_all
  have step: "repel d i j acc =
      applyImpulse d j (softenedRepulsion (prev ! i) (prev ! j))
        (applyImpulse d i (opposite (softenedRepulsion (prev ! i) (prev ! j))) acc)"
    using repel_impulses [of i j acc d] ij len by (simp add: f)
  have "map (\<lambda>n. (node_id n, x n, y n)) (repel d i j acc) = map (\<lambda>n. (node_id n, x n, y n)) acc"
    by (rule map_repel) simp
  with Cons.prems(2) have inv: "map (\<lambda>n. (node_id n, x n, y n)) (repel d i j acc)
      = map (\<lambda>n. (node_id n, x n, y n)) prev" by simp
  from Cons.prems(1) have rest: "\<forall>p\<in>set ps. fst p < snd p \<and> snd p < length prev" by simp
  from Cons.IH [OF rest inv] show ?case by (simp add: p step)
qed

lemma phase2_impulses:
  fixes prev acc :: "'p SimNode list"
  assumes "linksInRange L (length prev)"
    and "map (\<lambda>n. (node_id n, x n, y n)) acc = map (\<lambda>n. (node_id n, x n, y n)) prev"
  shows "springAll d L acc
       = Some (fold (\<lambda>(s, t) acc.
                 applyImpulse d t (opposite (springImpulse (prev ! s) (prev ! t)))
                   (applyImpulse d s (springImpulse (prev ! s) (prev ! t)) acc))
              L acc)"
  using assms
proof (induction L arbitrary: acc)
  case Nil
  then show ?case by simp
next
  case (Cons p L)
  obtain s t where p: "p = (s, t)" by (cases p)
  from Cons.prems(1) p have st: "s < length prev" "t < length prev"
    and rest: "linksInRange L (length prev)"
    by (auto simp: linksInRange_def)
  from Cons.prems(2) have len: "length acc = length prev" by (rule map_eq_imp_length_eq)
  have as: "(node_id (acc ! s), x (acc ! s), y (acc ! s)) = (node_id (prev ! s), x (prev ! s), y (prev ! s))"
    using same_at [OF Cons.prems(2), of s] st by simp
  have at: "(node_id (acc ! t), x (acc ! t), y (acc ! t)) = (node_id (prev ! t), x (prev ! t), y (prev ! t))"
    using same_at [OF Cons.prems(2), of t] st by simp
  have f: "springImpulse (acc ! s) (acc ! t) = springImpulse (prev ! s) (prev ! t)"
    using as at by (intro springImpulse_pos) simp_all
  have step: "spring d s t acc =
      applyImpulse d t (opposite (springImpulse (prev ! s) (prev ! t)))
        (applyImpulse d s (springImpulse (prev ! s) (prev ! t)) acc)"
    using spring_impulses [of s acc t d] st len by (simp add: f)
  have "map (\<lambda>n. (node_id n, x n, y n)) (spring d s t acc) = map (\<lambda>n. (node_id n, x n, y n)) acc"
    by (rule map_spring) simp
  with Cons.prems(2) have inv: "map (\<lambda>n. (node_id n, x n, y n)) (spring d s t acc)
      = map (\<lambda>n. (node_id n, x n, y n)) prev" by simp
  from Cons.IH [OF rest inv] st len show ?case by (simp add: p step)
qed

lemma speed_gt_iff:
  fixes a b m :: real
  assumes "0 \<le> m"
  shows "sqrt (a * a + b * b) > m \<longleftrightarrow> a * a + b * b > m * m"
  using speed_sq_iff [OF assms, of a b] by (simp add: not_le [symmetric] power2_eq_square)

lemma center_steps:
  "center d n =
     (if Some (node_id n) = d then damping n
      else clampPosition (integrate (clampSpeed (damping (centering n)))))"
proof (cases "Some (node_id n) = d")
  case True
  then show ?thesis by (simp add: center_def damping_def)
next
  case False
  define a0 where "a0 = (vx n + (WIDTH / 2 - x n) * CENTER_STRENGTH * DT) * DAMPING"
  define b0 where "b0 = (vy n + (HEIGHT / 2 - y n) * CENTER_STRENGTH * DT) * DAMPING"
  define a where "a = (if a0 * a0 + b0 * b0 > MAX_VELOCITY * MAX_VELOCITY
                       then a0 * (MAX_VELOCITY / sqrt (a0 * a0 + b0 * b0)) else a0)"
  define b where "b = (if a0 * a0 + b0 * b0 > MAX_VELOCITY * MAX_VELOCITY
                       then b0 * (MAX_VELOCITY / sqrt (a0 * a0 + b0 * b0)) else b0)"
  have c: "center d n = n\<lparr>vx := a, vy := b,
                x := max BOUNDS_MARGIN (min (WIDTH - BOUNDS_MARGIN) (x n + a)),
                y := max BOUNDS_MARGIN (min (HEIGHT - BOUNDS_MARGIN) (y n + b))\<rparr>"
    unfolding center_def Let_def a_def b_def a0_def b0_def
    by (simp only: False if_False)
  have dc: "damping (centering n) = n\<lparr>vx := a0, vy := b0\<rparr>"
    by (simp add: damping_def centering_def a0_def b0_def algebra_simps)
  have m0: "0 \<le> MAX_VELOCITY" by (simp add: MAX_VELOCITY_def)
  have cs: "clampSpeed (n\<lparr>vx := a0, vy := b0\<rparr>) = n\<lparr>vx := a, vy := b\<rparr>"
    by (simp add: clampSpeed_def a_def b_def power2_eq_square speed_gt_iff [OF m0])
  have "clampPosition (integrate (n\<lparr>vx := a, vy := b\<rparr>)) =
        n\<lparr>vx := a, vy := b,
                x := max BOUNDS_MARGIN (min (WIDTH - BOUNDS_MARGIN) (x n + a)),
                y := max BOUNDS_MARGIN (min (HEIGHT - BOUNDS_MARGIN) (y n + b))\<rparr>"
    by (simp add: clampPosition_def integrate_def)
  with False c dc cs show ?thesis by simp
qed

lemma center_steps_fun:
  "center d =
     (\<lambda>n. if Some (node_id n) = d then damping n
          else clampPosition (integrate (clampSpeed (damping (centering n)))))"
  by (rule ext) (rule center_steps)

lemma clampSpeed_squares:
  "clampSpeed n =
     (if vx n * vx n + vy n * vy n > MAX_VELOCITY * MAX_VELOCITY
      then n\<lparr>vx := vx n * (MAX_VELOCITY / sqrt (vx n * vx n + vy n * vy n)),
             vy := vy n * (MAX_VELOCITY / sqrt (vx n * vx n + vy n * vy n))\<rparr>
      else n)"
proof -
  have "0 \<le> MAX_VELOCITY" by (simp add: MAX_VELOCITY_def)
  from speed_gt_iff [OF this, of "vx n" "vy n"] show ?thesis
    by (simp add: clampSpeed_def power2_eq_square)
qed

lemma sqrt_soft: "sqrt (97969 / 62500) = 313 / 250"
  by (rule real_sqrt_unique) (simp_all add: power2_eq_square)

lemma tick_at_close_pair:
  "tick [] (Some (StrId ''a''))
     [\<lparr>node_id = StrId ''a'', label = None, properties = None :: unit option,
       x = 100, y = 100, vx = 10, vy = 0\<rparr>,
      \<lparr>node_id = StrId ''b'', label = None, properties = None,
       x = 101.248, y = 100, vx = 0, vy = 0\<rparr>]
   = Some [\<lparr>node_id = StrId ''a'', label = None, properties = None,
            x = 100, y = 100, vx = 9.2, vy = 0\<rparr>,
           \<lparr>node_id = StrId ''b'', label = None, properties = None,
            x = 34532358838993716 / 299456025390625, y = 3125391 / 31250,
            vx = 4213035180243716 / 299456025390625, vy = 391 / 31250\<rparr>]"
  apply (simp add: tick_def repelAll_def repel_def Let_def sim_consts)
  apply (simp add: center_def Let_def sim_consts sqrt_soft real_sqrt_divide)
  done

lemma claimedTick_at_close_pair:
  "claimedTick [] (Some (StrId ''a''))
     [\<lparr>node_id = StrId ''a'', label = None, properties = None :: unit option,
       x = 100, y = 100, vx = 10, vy = 0\<rparr>,
      \<lparr>node_id = StrId ''b'', label = None, properties = None,
       x = 101.248, y = 100, vx = 0, vy = 0\<rparr>]
   = [\<lparr>node_id = StrId ''a'', label = None, properties = None,
            x = 100, y = 100, vx = 10, vy = 0\<rparr>,
           \<lparr>node_id = StrId ''b'', label = None, properties = None,
            x = 110370081154932 / 956728515625, y = 3125391 / 31250,
            vx = 13503232404932 / 956728515625, vy = 391 / 31250\<rparr>]"
  apply (simp add: claimedTick_def phasesInOrder_def unorderedPairs_def applyImpulse_def
      claimedRepulsion_def opposite_def Let_def sim_consts)
  apply (simp add: clampPosition_def integrate_def clampSpeed_squares damping_def centering_def
      sim_consts power2_eq_square)
  done

text \<open>
  Claim C1 fails in two places.  Node \<open>a\<close> is pinned and moves at \<open>(10, 0)\<close>; node \<open>b\<close> is
  \<open>1.248\<close> to its right.  The code damps the pinned node to \<open>vx = 9.2\<close>, where the claimed
  phase 3 leaves pinned nodes alone.  The code divides the pair vector by
  \<open>sqrt (|d|\<^sup>2 + 0.01) = 1.252\<close>, not by \<open>|d| = 1.248\<close>, so the repulsion impulse on \<open>b\<close> is
  smaller than the claimed one and \<open>b\<close> ends with a smaller velocity.
\<close>

theorem tick_differs_from_claimed:
  "tick [] (Some (StrId ''a''))
     [\<lparr>node_id = StrId ''a'', label = None, properties = None :: unit option,
       x = 100, y = 100, vx = 10, vy = 0\<rparr>,
      \<lparr>node_id = StrId ''b'', label = None, properties = None,
       x = 101.248, y = 100, vx = 0, vy = 0\<rparr>]
   = Some [\<lparr>node_id = StrId ''a'', label = None, properties = None,
            x = 100, y = 100, vx = 9.2, vy = 0\<rparr>,
           \<lparr>node_id = StrId ''b'', label = None, properties = None,
            x = 34532358838993716 / 299456025390625, y = 3125391 / 31250,
            vx = 4213035180243716 / 299456025390625, vy = 391 / 31250\<rparr>]
   \<and> claimedTick [] (Some (StrId ''a''))
     [\<lparr>node_id = StrId ''a'', label = None, properties = None :: unit option,
       x = 100, y = 100, vx = 10, vy = 0\<rparr>,
      \<lparr>node_id = StrId ''b'', label = None, properties = None,
       x = 101.248, y = 100, vx = 0, vy = 0\<rparr>]
   = [\<lparr>node_id = StrId ''a'', label = None, properties = None,
            x = 100, y = 100, vx = 10, vy = 0\<rparr>,
           \<lparr>node_id = StrId ''b'', label = None, properties = None,
            x = 110370081154932 / 956728515625, y = 3125391 / 31250,
            vx = 13503232404932 / 956728515625, vy = 391 / 31250\<rparr>]
   \<and> tick [] (Some (StrId ''a''))
     [\<lparr>node_id = StrId ''a'', label = None, properties = None :: unit option,
       x = 100, y = 100, vx = 10, vy = 0\<rparr>,
      \<lparr>node_id = StrId ''b'', label = None, properties = None,
       x = 101.248, y = 100, vx = 0, vy = 0\<rparr>]
   \<noteq> Some (claimedTick [] (Some (StrId ''a''))
     [\<lparr>node_id = StrId ''a'', label = None, properties = None :: unit option,
       x = 100, y = 100, vx = 10, vy = 0\<rparr>,
      \<lparr>node_id = StrId ''b'', label = None, properties = None,
       x = 101.248, y = 100, vx = 0, vy = 0\<rparr>])"
  unfolding tick_at_close_pair claimedTick_at_close_pair by simp

text \<open>
  Claim C1, amended.  With index pairs inside the array, one tick is the three phases in
  order, forces computed from the previous tick's array: (1) for every unordered pair the
  impulse \<open>REPEL_STRENGTH / (|d|\<^sup>2 + 0.01)\<close> along the pair vector divided by
  \<open>sqrt (|d|\<^sup>2 + 0.01)\<close>, scaled by \<open>DT\<close>, with opposite signs on the two sides, skipping the
  pinned side; (2) for every index pair the spring impulse, with opposing signs, skipping
  the pinned side; (3) for every non-pinned node centering, damping, speed clamp,
  integration and position clamp, and for the pinned node damping only.
\<close>

theorem tick_phases_in_order:
  assumes "linksInRange L (length ns)"
  shows "tick L d ns = Some (amendedTick L d ns)"
proof -
  let ?p1 = "fold (\<lambda>(i, j) acc.
                 applyImpulse d j (softenedRepulsion (ns ! i) (ns ! j))
                   (applyImpulse d i (opposite (softenedRepulsion (ns ! i) (ns ! j))) acc))
              (unorderedPairs (length ns)) ns"
  let ?p2 = "fold (\<lambda>(s, t) acc.
                 applyImpulse d t (opposite (springImpulse (ns ! s) (ns ! t)))
                   (applyImpulse d s (springImpulse (ns ! s) (ns ! t)) acc))
              L ?p1"
  have pairs: "\<forall>p\<in>set (unorderedPairs (length ns)). fst p < snd p \<and> snd p < length ns"
    using in_unorderedPairs by fastforce
  have r: "repelAll d ns = ?p1"
    unfolding repelAll_pairs by (rule phase1_impulses [OF pairs]) simp
  have "map (\<lambda>n. (node_id n, x n, y n)) (repelAll d ns) = map (\<lambda>n. (node_id n, x n, y n)) ns"
    by (rule map_repelAll) simp
  then have inv: "map (\<lambda>n. (node_id n, x n, y n)) ?p1 = map (\<lambda>n. (node_id n, x n, y n)) ns"
    by (simp only: r)
  have s: "springAll d L ?p1 = Some ?p2"
    by (rule phase2_impulses [OF assms inv])
  have a: "amendedTick L d ns = map (center d) ?p2"
    unfolding amendedTick_def phasesInOrder_def Let_def center_steps_fun by (rule refl)
  show ?thesis
  proof (cases "ns = []")
    case True
    with assms have "L = []" by (cases L) (auto simp: linksInRange_def)
    with True show ?thesis
      by (simp add: tick_def amendedTick_def phasesInOrder_def unorderedPairs_def)
  next
    case False
    have "tick L d ns = (case springAll d L (repelAll d ns) of
          None \<Rightarrow> None | Some updated \<Rightarrow> Some (map (center d) updated))"
      using False by (simp add: tick_def)
    also have "\<dots> = Some (map (center d) ?p2)"
      by (simp only: r s option.case)
    finally show ?thesis by (simp only: a)
  qed
qed

text \<open>The same two nodes joined by a link.\<close>

theorem tick_phases_in_order_witness:
  "linksInRange [(0, 1)] (length
     [\<lparr>node_id = StrId ''a'', label = None, properties = None :: unit option,
       x = 100, y = 100, vx = 10, vy = 0\<rparr>,
      \<lparr>node_id = StrId ''b'', label = None, properties = None,
       x = 101.248, y = 100, vx = 0, vy = 0\<rparr>])
   \<and> tick [(0, 1)] (Some (StrId ''a''))
     [\<lparr>node_id = StrId ''a'', label = None, properties = None :: unit option,
       x = 100, y = 100, vx = 10, vy = 0\<rparr>,
      \<lparr>node_id = StrId ''b'', label = None, properties = None,
       x = 101.248, y = 100, vx = 0, vy = 0\<rparr>]
   = Some (amendedTick [(0, 1)] (Some (StrId ''a''))
     [\<lparr>node_id = StrId ''a'', label = None, properties = None :: unit option,
       x = 100, y = 100, vx = 10, vy = 0\<rparr>,
      \<lparr>node_id = StrId ''b'', label = None, properties = None,
       x = 101.248, y = 100, vx = 0, vy = 0\<rparr>])"
proof -
  have h: "linksInRange [(0, 1)] (length
     [\<lparr>node_id = StrId ''a'', label = None, properties = None :: unit option,
       x = 100, y = 100, vx = 10, vy = 0\<rparr>,
      \<lparr>node_id = StrId ''b'', label = None, properties = None,
       x = 101.248, y = 100, vx = 0, vy = 0\<rparr>])"
    by (simp add: linksInRange_def)
  from tick_phases_in_order [OF h] h show ?thesis by blast
qed

end
